theory Spec2Isabelle
  imports Main "HOL-Library.Word"
begin

section \<open>Strings\<close>

text \<open>
  Go strings are byte sequences; they are modelled as \<open>string\<close> (a list of \<open>char\<close>,
  one \<open>char\<close> per byte). The functions below are the ones of Go's \<open>strings\<close>,
  \<open>strconv\<close> and \<open>fmt\<close> packages that the programs call. Every separator the
  programs pass to \<open>strings.Split\<close> is one byte long, so \<open>Split\<close> takes a \<open>char\<close>.
\<close>

definition TrimPrefix :: "string \<Rightarrow> string \<Rightarrow> string" where
  "TrimPrefix s prefix =
     (if take (length prefix) s = prefix then drop (length prefix) s else s)"

fun Split :: "string \<Rightarrow> char \<Rightarrow> string list" where
  "Split [] sep = [[]]"
| "Split (c # cs) sep =
     (if c = sep then [] # Split cs sep
      else (case Split cs sep of [] \<Rightarrow> [[c]] | t # ts \<Rightarrow> (c # t) # ts))"

fun Join :: "string list \<Rightarrow> string \<Rightarrow> string" where
  "Join [] sep = []"
| "Join [x] sep = x"
| "Join (x # y # ys) sep = x @ sep @ Join (y # ys) sep"

definition isDigit :: "char \<Rightarrow> bool" where
  "isDigit c = (48 \<le> (of_char c :: nat) \<and> (of_char c :: nat) \<le> 57)"

definition isUpper :: "char \<Rightarrow> bool" where
  "isUpper c = (65 \<le> (of_char c :: nat) \<and> (of_char c :: nat) \<le> 90)"

definition isLower :: "char \<Rightarrow> bool" where
  "isLower c = (97 \<le> (of_char c :: nat) \<and> (of_char c :: nat) \<le> 122)"

definition digitVal :: "char \<Rightarrow> nat" where
  "digitVal c = of_char c - 48"

definition digitChar :: "nat \<Rightarrow> char" where
  "digitChar d = ''0123456789'' ! d"

text \<open>The value of a string of decimal digits, most significant digit first.\<close>

fun digitsVal :: "nat \<Rightarrow> string \<Rightarrow> nat" where
  "digitsVal acc [] = acc"
| "digitsVal acc (c # cs) = digitsVal (10 * acc + digitVal c) cs"

text \<open>
  \<open>strconv.ParseUint(s, 10, 64)\<close>: an error (\<open>None\<close>) for the empty string, for a
  byte that is not a decimal digit, and for a value that does not fit 64 bits.
\<close>

definition ParseUint :: "string \<Rightarrow> 64 word option" where
  "ParseUint s =
     (if s = [] \<or> \<not> list_all isDigit s then None
      else if digitsVal 0 s < 2 ^ 64 then Some (of_nat (digitsVal 0 s))
      else None)"

text \<open>The verb \<open>%d\<close> of \<open>fmt\<close> on an unsigned integer: decimal, no leading zero.\<close>

fun formatUint :: "nat \<Rightarrow> string" where
  "formatUint n =
     (if n < 10 then [digitChar n] else formatUint (n div 10) @ [digitChar (n mod 10)])"

declare formatUint.simps [simp del]

text \<open>The string comparison \<open>s < o\<close> of Go: lexicographic on bytes.\<close>

fun strLess :: "string \<Rightarrow> string \<Rightarrow> bool" where
  "strLess [] [] = False"
| "strLess [] (y # ys) = True"
| "strLess (x # xs) [] = False"
| "strLess (x # xs) (y # ys) =
     ((of_char x :: nat) < of_char y \<or> (x = y \<and> strLess xs ys))"


section \<open>The semantic-version library\<close>

text \<open>
  Both programs import \<open>github.com/Masterminds/semver/v3\<close> and call its
  \<open>NewVersion\<close>, \<open>MustParse\<close>, \<open>Compare\<close>, \<open>String\<close>, \<open>IncMajor\<close>,
  \<open>IncMinor\<close> and \<open>IncPatch\<close>. The package is a dependency of the repository, not
  one of its files; this section embeds those functions of the package's \<open>version.go\<close>
  (release line 3.1) so that the repository's functions can be stated on top of them. It
  is the one part of the development that has no file of the repository to be read
  against: it is to be read against the package.
\<close>

record Version =
  major :: "64 word"
  minor :: "64 word"
  patch :: "64 word"
  pre :: string
  metadata :: string
  original :: string

text \<open>
  The bytes of the constant \<open>allowed\<close>: letters, digits and the hyphen; \<open>num\<close> is
  the digits. \<open>containsOnly s chars\<close> holds when every byte of \<open>s\<close> is in \<open>chars\<close>.
\<close>

definition allowed :: "char \<Rightarrow> bool" where
  "allowed c = (isLower c \<or> isUpper c \<or> c = CHR ''-'' \<or> isDigit c)"

definition containsOnly :: "string \<Rightarrow> (char \<Rightarrow> bool) \<Rightarrow> bool" where
  "containsOnly s chars = list_all chars s"

text \<open>
  The regular expression of the package, anchored at both ends:
  \<^verbatim>\<open>v?([0-9]+)(\.[0-9]+)?(\.[0-9]+)?(-([0-9A-Za-z\-]+(\.[0-9A-Za-z\-]+)*))?(\+([0-9A-Za-z\-]+(\.[0-9A-Za-z\-]+)*))?\<close>
  \<open>versionRegex\<close> returns the groups 1, 2, 3, 5 and 8 that \<open>NewVersion\<close> reads, or
  \<open>None\<close> when the string does not match. \<open>identifiers s\<close> is the sub-expression
  of groups 5 and 8: one or more non-empty runs of allowed bytes, separated by dots.
  \<open>dotDigits\<close> is the optional group \<^verbatim>\<open>(\.[0-9]+)?\<close>: what it captures, and the rest.
\<close>

definition identifiers :: "string \<Rightarrow> bool" where
  "identifiers s = list_all (\<lambda>p. p \<noteq> [] \<and> list_all allowed p) (Split s (CHR ''.''))"

definition dotDigits :: "string \<Rightarrow> string \<times> string" where
  "dotDigits s =
     (case s of
        [] \<Rightarrow> ([], s)
      | c # cs \<Rightarrow>
          if c = CHR ''.'' \<and> takeWhile isDigit cs \<noteq> []
          then (c # takeWhile isDigit cs, dropWhile isDigit cs)
          else ([], s))"

definition versionTail :: "string \<Rightarrow> (string \<times> string) option" where
  "versionTail s =
     (case s of
        [] \<Rightarrow> Some ([], [])
      | c # cs \<Rightarrow>
          if c = CHR ''-'' then
            (let p = takeWhile (\<lambda>x. x \<noteq> CHR ''+'') cs;
                 r = dropWhile (\<lambda>x. x \<noteq> CHR ''+'') cs
             in if \<not> identifiers p then None
                else if r = [] then Some (p, [])
                else if identifiers (tl r) then Some (p, tl r) else None)
          else if c = CHR ''+'' then
            (if identifiers cs then Some ([], cs) else None)
          else None)"

definition versionRegex :: "string \<Rightarrow> (string \<times> string \<times> string \<times> string \<times> string) option" where
  "versionRegex v =
     (let s = (case v of [] \<Rightarrow> [] | c # cs \<Rightarrow> if c = CHR ''v'' then cs else v);
          m1 = takeWhile isDigit s;
          (m2, r2) = dotDigits (dropWhile isDigit s);
          (m3, r3) = dotDigits r2
      in if m1 = [] then None
         else (case versionTail r3 of
                 None \<Rightarrow> None
               | Some (m5, m8) \<Rightarrow> Some (m1, m2, m3, m5, m8)))"

fun validatePrerelease_parts :: "string list \<Rightarrow> bool" where
  "validatePrerelease_parts [] = True"
| "validatePrerelease_parts (p # ps) =
     (if containsOnly p isDigit then
        (if length p > 1 \<and> hd p = CHR ''0'' then False else validatePrerelease_parts ps)
      else if \<not> containsOnly p allowed then False
      else validatePrerelease_parts ps)"

definition validatePrerelease :: "string \<Rightarrow> bool" where
  "validatePrerelease p = validatePrerelease_parts (Split p (CHR ''.''))"

fun validateMetadata_parts :: "string list \<Rightarrow> bool" where
  "validateMetadata_parts [] = True"
| "validateMetadata_parts (p # ps) =
     (if \<not> containsOnly p allowed then False else validateMetadata_parts ps)"

definition validateMetadata :: "string \<Rightarrow> bool" where
  "validateMetadata m = validateMetadata_parts (Split m (CHR ''.''))"

text \<open>
  \<open>NewVersion\<close>: the error return is \<open>None\<close> (the callers only test \<open>err != nil\<close>).
  A missing minor or patch group is read as 0.
\<close>

definition NewVersion :: "string \<Rightarrow> Version option" where
  "NewVersion v =
     (case versionRegex v of
        None \<Rightarrow> None
      | Some (m1, m2, m3, m5, m8) \<Rightarrow>
          (case ParseUint m1 of
             None \<Rightarrow> None
           | Some mj \<Rightarrow>
               (case (if m2 \<noteq> [] then ParseUint (TrimPrefix m2 ''.'') else Some 0) of
                  None \<Rightarrow> None
                | Some mi \<Rightarrow>
                    (case (if m3 \<noteq> [] then ParseUint (TrimPrefix m3 ''.'') else Some 0) of
                       None \<Rightarrow> None
                     | Some pa \<Rightarrow>
                         if m5 \<noteq> [] \<and> \<not> validatePrerelease m5 then None
                         else if m8 \<noteq> [] \<and> \<not> validateMetadata m8 then None
                         else Some \<lparr>major = mj, minor = mi, patch = pa,
                                    pre = m5, metadata = m8, original = v\<rparr>))))"

definition String :: "Version \<Rightarrow> string" where
  "String v =
     formatUint (unat (major v)) @ ''.'' @ formatUint (unat (minor v)) @ ''.'' @
     formatUint (unat (patch v)) @
     (if pre v \<noteq> [] then ''-'' @ pre v else []) @
     (if metadata v \<noteq> [] then ''+'' @ metadata v else [])"

definition originalVPrefix :: "Version \<Rightarrow> string" where
  "originalVPrefix v =
     (if original v \<noteq> [] \<and> take 1 (original v) = ''v'' then take 1 (original v) else [])"

text \<open>
  The three increments. \<open>IncPatch\<close> on a version with a pre-release keeps the patch
  number and only drops the pre-release and the metadata (the release that the
  pre-release announces); otherwise it adds one. The additions are those of
  \<open>uint64\<close>.
\<close>

definition IncPatch :: "Version \<Rightarrow> Version" where
  "IncPatch v =
     (let vNext = (if pre v \<noteq> [] then v\<lparr>metadata := [], pre := []\<rparr>
                   else v\<lparr>metadata := [], pre := [], patch := patch v + 1\<rparr>)
      in vNext\<lparr>original := originalVPrefix v @ String vNext\<rparr>)"

definition IncMinor :: "Version \<Rightarrow> Version" where
  "IncMinor v =
     (let vNext = v\<lparr>metadata := [], pre := [], patch := 0, minor := minor v + 1\<rparr>
      in vNext\<lparr>original := originalVPrefix v @ String vNext\<rparr>)"

definition IncMajor :: "Version \<Rightarrow> Version" where
  "IncMajor v =
     (let vNext = v\<lparr>metadata := [], pre := [], patch := 0, minor := 0, major := major v + 1\<rparr>
      in vNext\<lparr>original := originalVPrefix v @ String vNext\<rparr>)"

text \<open>Precedence: \<open>Compare\<close> returns -1, 0 or 1.\<close>

definition compareSegment :: "64 word \<Rightarrow> 64 word \<Rightarrow> int" where
  "compareSegment v o' = (if v < o' then -1 else if v > o' then 1 else 0)"

definition comparePrePart :: "string \<Rightarrow> string \<Rightarrow> int" where
  "comparePrePart s o' =
     (if s = o' then 0
      else if s = [] then (if o' \<noteq> [] then -1 else 1)
      else if o' = [] then (if s \<noteq> [] then 1 else -1)
      else (case (ParseUint o', ParseUint s) of
              (None, None) \<Rightarrow> (if strLess o' s then 1 else -1)
            | (None, Some si) \<Rightarrow> -1
            | (Some oi, None) \<Rightarrow> 1
            | (Some oi, Some si) \<Rightarrow> (if si > oi then 1 else -1)))"

text \<open>
  The loop of \<open>comparePrerelease\<close> runs over the longer of the two lists of parts and
  reads a missing part as the empty string; it returns at the first difference.
\<close>

fun comparePrerelease_parts :: "string list \<Rightarrow> string list \<Rightarrow> int" where
  "comparePrerelease_parts [] [] = 0"
| "comparePrerelease_parts (s # ss) [] =
     (let d = comparePrePart s [] in if d \<noteq> 0 then d else comparePrerelease_parts ss [])"
| "comparePrerelease_parts [] (t # ts) =
     (let d = comparePrePart [] t in if d \<noteq> 0 then d else comparePrerelease_parts [] ts)"
| "comparePrerelease_parts (s # ss) (t # ts) =
     (let d = comparePrePart s t in if d \<noteq> 0 then d else comparePrerelease_parts ss ts)"

definition comparePrerelease :: "string \<Rightarrow> string \<Rightarrow> int" where
  "comparePrerelease v o' =
     comparePrerelease_parts (Split v (CHR ''.'')) (Split o' (CHR ''.''))"

definition Compare :: "Version \<Rightarrow> Version \<Rightarrow> int" where
  "Compare v o' =
     (let d = compareSegment (major v) (major o') in
      if d \<noteq> 0 then d else
      let d = compareSegment (minor v) (minor o') in
      if d \<noteq> 0 then d else
      let d = compareSegment (patch v) (patch o') in
      if d \<noteq> 0 then d else
      if pre v = [] \<and> pre o' = [] then 0
      else if pre v = [] then 1
      else if pre o' = [] then -1
      else comparePrerelease (pre v) (pre o'))"


section \<open>Errors\<close>

text \<open>
  \<open>noError\<close> ends the process through \<open>log.Fatalf\<close> (exit status 1) when it is
  given an error, and a Go \<open>panic\<close> that nothing recovers ends it with status 2.
  A function that can end the process returns \<open>error + 'a\<close>.
\<close>

datatype error = Fatal string | Panic string

fun exitStatus :: "error + 'a \<Rightarrow> nat" where
  "exitStatus (Inl (Fatal msg)) = 1"
| "exitStatus (Inl (Panic msg)) = 2"
| "exitStatus (Inr x) = 0"


section \<open>Version bump\<close>

definition MustParse :: "string \<Rightarrow> error + Version" where
  "MustParse v = (case NewVersion v of None \<Rightarrow> Inl (Panic ''Invalid Semantic Version'') | Some sv \<Rightarrow> Inr sv)"

definition bumpVersion :: "Version option \<Rightarrow> string \<Rightarrow> error + Version" where
  "bumpVersion version bump =
     (case (case version of None \<Rightarrow> MustParse ''v0.0.0'' | Some v \<Rightarrow> Inr v) of
        Inl e \<Rightarrow> Inl e
      | Inr version' \<Rightarrow>
          if bump = ''major'' then Inr (IncMajor version')
          else if bump = ''minor'' then Inr (IncMinor version')
          else if bump = ''patch'' then Inr (IncPatch version')
          else Inl (Panic (''invalid bump: '' @ bump)))"


section \<open>The hosting API and the effects of a run\<close>

text \<open>
  Of a \<open>github.Repository\<close> the programs read the name, the full name
  (\<open>owner/name\<close>), the default branch and the owner's login.
\<close>

record Repository =
  Name :: string
  FullName :: string
  DefaultBranch :: string
  OwnerLogin :: string

text \<open>
  The client \<open>c\<close> is given by the answers of the remote API, as functions of the
  request: the error of the call (\<open>Inl\<close>, its message) or the value the programs read
  from the answer. \<open>Git_ListMatchingRefs\<close> answers with the names of the matching
  references, \<open>Repositories_GetCommit\<close> with the SHA of the commit, and
  \<open>Git_CreateRef\<close> with the name and the SHA of the created reference.
\<close>

record Client =
  Repositories_ListByOrg :: "string \<Rightarrow> string + Repository list"
  Git_ListMatchingRefs :: "string \<Rightarrow> string \<Rightarrow> string \<Rightarrow> string + string list"
  Repositories_Get :: "string \<Rightarrow> string \<Rightarrow> string + Repository"
  Repositories_GetCommit :: "string \<Rightarrow> string \<Rightarrow> string \<Rightarrow> string + string"
  Git_CreateRef :: "string \<Rightarrow> string \<Rightarrow> string \<Rightarrow> string \<Rightarrow> string + string \<times> string"

text \<open>
  What a run does to the outside, in order: the API calls with their arguments, the text
  written to standard output, and the prompts and messages on the terminal. Log lines
  (\<open>log.Printf\<close>, discarded unless \<open>-verbose\<close> is set) are left out. A function
  with effects returns the events it caused and its result.
\<close>

datatype event =
    ListByOrg_call string
  | ListMatchingRefs_call string string string
  | Get_call string string
  | GetCommit_call string string string
  | CreateRef_call string string string string
  | Stdout string
  | Prompt string
  | Warning string
  | Info string

fun noError :: "string + 'a \<Rightarrow> error + 'a" where
  "noError (Inl err) = Inl (Fatal (''Error: '' @ err))"
| "noError (Inr x) = Inr x"


section \<open>gh-tag-fetcher\<close>

record repo =
  repo :: Repository
  latestTag :: "Version option"
  newTag :: "Version option"

text \<open>
  \<open>parseFlags\<close>, after \<open>flag.Parse\<close> has read the command line: \<open>bump\<close> is the
  value of the flag \<open>-bump\<close>, \<open>args\<close> the remaining arguments and \<open>token\<close> the
  value of the environment variable \<open>GITHUB_TOKEN\<close>. It returns the organization.
\<close>

definition parseFlags :: "string \<Rightarrow> string list \<Rightarrow> string \<Rightarrow> error + string" where
  "parseFlags bump args token =
     (if length args = 0 then noError (Inl ''missing argument: github organization'')
      else if length args > 1 then
        noError (Inl (''too many arguments: expected only 1 argument, got '' @
                      formatUint (length args)))
      else if token = [] then noError (Inl ''environment variable not set: GITHUB_TOKEN'')
      else if bump = ''patch'' \<or> bump = ''minor'' \<or> bump = ''major'' then Inr (args ! 0)
      else noError (Inl (''bump flag expects one of [patch minor major], got: '' @ bump)))"

text \<open>
  \<open>sort.Sort\<close> with the order \<open>Less\<close> of \<open>ByVersion\<close>. The standard library sorts
  a short slice by insertion: each element in turn is swapped towards the front while it
  is less than its left neighbour. \<open>insertionSort_step\<close> does this on the sorted
  prefix, kept in reverse (its last element first). On a long slice \<open>sort.Sort\<close>
  runs another comparison sort; the proofs below use only that the result is a
  permutation ordered by \<open>Less\<close>.
\<close>

definition Less :: "Version \<Rightarrow> Version \<Rightarrow> bool" where
  "Less a b = (Compare a b < 0)"

fun insertionSort_step :: "('a \<Rightarrow> 'a \<Rightarrow> bool) \<Rightarrow> 'a \<Rightarrow> 'a list \<Rightarrow> 'a list" where
  "insertionSort_step lt x [] = [x]"
| "insertionSort_step lt x (y # rs) =
     (if lt x y then y # insertionSort_step lt x rs else x # y # rs)"

definition sort_Sort :: "('a \<Rightarrow> 'a \<Rightarrow> bool) \<Rightarrow> 'a list \<Rightarrow> 'a list" where
  "sort_Sort lt xs = rev (foldl (\<lambda>rs x. insertionSort_step lt x rs) [] xs)"

text \<open>The loop of \<open>fetchLatestTag\<close> over the references: a name that does not parse is skipped.\<close>

fun parseTags :: "string list \<Rightarrow> Version list" where
  "parseTags [] = []"
| "parseTags (ref # refs) =
     (case NewVersion (TrimPrefix ref ''refs/tags/'') of
        None \<Rightarrow> parseTags refs
      | Some v \<Rightarrow> v # parseTags refs)"

text \<open>
  The end of \<open>fetchLatestTag\<close>: \<open>nil\<close> when no name parsed, and otherwise the
  last element of the sorted slice.
\<close>

definition latestOf :: "Version list \<Rightarrow> Version option" where
  "latestOf tags = (if length tags = 0 then None else Some (last (sort_Sort Less tags)))"

definition fetchLatestTag :: "Client \<Rightarrow> string \<Rightarrow> string \<Rightarrow> event list \<times> (error + Version option)" where
  "fetchLatestTag c org name =
     ([ListMatchingRefs_call org name ''tags/''],
      case noError (Git_ListMatchingRefs c org name ''tags/'') of
        Inl e \<Rightarrow> Inl e
      | Inr refs \<Rightarrow> Inr (latestOf (parseTags refs)))"

fun fetchRepos_loop :: "Client \<Rightarrow> string \<Rightarrow> string \<Rightarrow> Repository list \<Rightarrow> event list \<times> (error + repo list)" where
  "fetchRepos_loop c bump org [] = ([], Inr [])"
| "fetchRepos_loop c bump org (ghr # ghRepos) =
     (case fetchLatestTag c org (Name ghr) of
        (t1, Inl e) \<Rightarrow> (t1, Inl e)
      | (t1, Inr latest) \<Rightarrow>
          (case bumpVersion latest bump of
             Inl e \<Rightarrow> (t1, Inl e)
           | Inr new \<Rightarrow>
               (case fetchRepos_loop c bump org ghRepos of
                  (t2, Inl e) \<Rightarrow> (t1 @ t2, Inl e)
                | (t2, Inr repos) \<Rightarrow>
                    (t1 @ t2,
                     Inr (\<lparr>repo = ghr, latestTag = latest, newTag = Some new\<rparr> # repos)))))"

definition fetchRepos :: "Client \<Rightarrow> string \<Rightarrow> string \<Rightarrow> event list \<times> (error + repo list)" where
  "fetchRepos c bump org =
     (case noError (Repositories_ListByOrg c org) of
        Inl e \<Rightarrow> ([ListByOrg_call org], Inl e)
      | Inr ghRepos \<Rightarrow>
          if length ghRepos = 0 then ([ListByOrg_call org], Inr [])
          else (case fetchRepos_loop c bump org ghRepos of
                  (t, r) \<Rightarrow> (ListByOrg_call org # t, r)))"

definition versionToString :: "Version option \<Rightarrow> string" where
  "versionToString v = (case v of None \<Rightarrow> [] | Some v' \<Rightarrow> ''v'' @ String v')"

definition reposToStdOutput :: "repo list \<Rightarrow> string list" where
  "reposToStdOutput repos =
     map (\<lambda>r. ''github.com/'' @ FullName (repo r) @ '' '' @ versionToString (newTag r)) repos"

text \<open>\<open>fmt.Println\<close> of the lines joined by a newline (byte 10).\<close>

definition printRepos :: "repo list \<Rightarrow> event list" where
  "printRepos repos = [Stdout (Join (reposToStdOutput repos) [CHR 0x0A] @ [CHR 0x0A])]"

definition fetcher_main :: "Client \<Rightarrow> string \<Rightarrow> string list \<Rightarrow> string \<Rightarrow> event list \<times> (error + unit)" where
  "fetcher_main c bump args token =
     (case parseFlags bump args token of
        Inl e \<Rightarrow> ([], Inl e)
      | Inr org \<Rightarrow>
          (case fetchRepos c bump org of
             (t, Inl e) \<Rightarrow> (t, Inl e)
           | (t, Inr repos) \<Rightarrow> (t @ printRepos repos, Inr ())))"


section \<open>gh-tag-creator\<close>

record tagged_repo =
  repository :: Repository
  tag :: string

definition creator_parseFlags :: "string \<Rightarrow> error + unit" where
  "creator_parseFlags token =
     (if token = [] then noError (Inl ''environment variable not set: GITHUB_TOKEN'')
      else Inr ())"

fun creator_fetchRepos :: "Client \<Rightarrow> string list \<Rightarrow> event list \<times> (error + tagged_repo list)" where
  "creator_fetchRepos c [] = ([], Inr [])"
| "creator_fetchRepos c (line # input) =
     (let tokens = Split line (CHR '' '') in
      if length tokens < 2 \<or> length tokens > 2 then
        ([], noError (Inl (''error parsing input line: expected 2 tokens separated with a space: '' @ line)))
      else
        let repoURL = TrimPrefix (tokens ! 0) ''github.com/'';
            tag' = tokens ! 1;
            tokens' = Split repoURL (CHR ''/'') in
        if length tokens' < 2 \<or> length tokens' > 2 then
          ([], noError (Inl (''error parsing input line: invalid repo URL: '' @ line)))
        else
          let org = tokens' ! 0; name = tokens' ! 1 in
          (case noError (Repositories_Get c org name) of
             Inl e \<Rightarrow> ([Get_call org name], Inl e)
           | Inr r \<Rightarrow>
               (case creator_fetchRepos c input of
                  (t, Inl e) \<Rightarrow> (Get_call org name # t, Inl e)
                | (t, Inr repos) \<Rightarrow>
                    (Get_call org name # t, Inr (\<lparr>repository = r, tag = tag'\<rparr> # repos)))))"

definition creator_reposToStdOutput :: "tagged_repo list \<Rightarrow> string list" where
  "creator_reposToStdOutput repos =
     map (\<lambda>r. ''github.com/'' @ FullName (repository r) @ '' '' @ tag r) repos"

fun creator_createTags :: "Client \<Rightarrow> tagged_repo list \<Rightarrow> event list \<times> (error + unit)" where
  "creator_createTags c [] = ([], Inr ())"
| "creator_createTags c (r # repos) =
     (let org = OwnerLogin (repository r);
          name = Name (repository r);
          branch = DefaultBranch (repository r) in
      case noError (Repositories_GetCommit c org name branch) of
        Inl e \<Rightarrow> ([GetCommit_call org name branch], Inl e)
      | Inr sha \<Rightarrow>
          (case noError (Git_CreateRef c org name (''refs/tags/'' @ tag r) sha) of
             Inl e \<Rightarrow>
               ([GetCommit_call org name branch,
                 CreateRef_call org name (''refs/tags/'' @ tag r) sha], Inl e)
           | Inr created \<Rightarrow>
               (case creator_createTags c repos of
                  (t, res) \<Rightarrow>
                    (GetCommit_call org name branch #
                     CreateRef_call org name (''refs/tags/'' @ tag r) sha # t, res))))"

text \<open>
  \<open>main\<close>: \<open>input\<close> is the lines of standard input, \<open>yes\<close> the flag \<open>-yes\<close>, and
  \<open>tty\<close> what opening the terminal and reading one byte from it gives.
\<close>

definition creator_main :: "Client \<Rightarrow> bool \<Rightarrow> string \<Rightarrow> string list \<Rightarrow> string + char \<Rightarrow> event list \<times> (error + unit)" where
  "creator_main c yes token input tty =
     (case creator_parseFlags token of
        Inl e \<Rightarrow> ([], Inl e)
      | Inr u \<Rightarrow>
          if length input = 0 then ([], noError (Inl ''no input''))
          else
            (case creator_fetchRepos c input of
               (t, Inl e) \<Rightarrow> (t, Inl e)
             | (t, Inr repos) \<Rightarrow>
                 if \<not> yes then
                   (let t' = t @ [Stdout [CHR 0x0A],
                                   Stdout (Join (creator_reposToStdOutput repos) [CHR 0x0A] @ [CHR 0x0A]),
                                   Stdout [CHR 0x0A],
                                   Stdout ''Do you want to create the tags listed above? [Y/N]: '']
                    in case noError tty of
                         Inl e \<Rightarrow> (t', Inl e)
                       | Inr y \<Rightarrow>
                           if y \<noteq> CHR ''y'' \<and> y \<noteq> CHR ''Y'' then (t', noError (Inl ''abort''))
                           else (case creator_createTags c repos of
                                   (t2, res) \<Rightarrow> (t' @ t2, res)))
                 else (case creator_createTags c repos of
                         (t2, res) \<Rightarrow> (t @ t2, res))))"


section \<open>The interactive tagger\<close>

text \<open>
  The third program fetches and bumps like gh-tag-fetcher (its \<open>fetchLatestTag\<close>,
  \<open>bumpVersion\<close> and \<open>ByVersion\<close> are the same text), lets the user select
  repositories and then creates the tags itself. Its organization is the constant
  \<open>conduitio\<close>. \<open>ask\<close> is the user's answer to a confirmation prompt, as a function
  of the prompt's text. A \<open>nil\<close> \<open>newTag\<close> would be a nil dereference (a panic).
\<close>

definition interactive_org :: string where
  "interactive_org = ''conduitio''"

fun interactive_createTags :: "Client \<Rightarrow> (string \<Rightarrow> string + bool) \<Rightarrow> repo list \<Rightarrow> event list \<times> (error + unit)" where
  "interactive_createTags c ask [] = ([], Inr ())"
| "interactive_createTags c ask (r # repos) =
     (let name = Name (repo r);
          branch = DefaultBranch (repo r);
          t0 = [Stdout [CHR 0x0A], GetCommit_call interactive_org name branch] in
      case noError (Repositories_GetCommit c interactive_org name branch) of
        Inl e \<Rightarrow> (t0, Inl e)
      | Inr sha \<Rightarrow>
          (case newTag r of
             None \<Rightarrow> (t0, Inl (Panic ''invalid memory address or nil pointer dereference''))
           | Some new \<Rightarrow>
               (let question = ''Confirm you want to create tag v'' @ String new @
                               '' on branch '' @ branch @ '' (SHA: '' @ sha @ '')'';
                    t1 = t0 @ [Prompt question] in
                case noError (ask question) of
                  Inl e \<Rightarrow> (t1, Inl e)
                | Inr confirm \<Rightarrow>
                    (let t2 = t1 @ (if \<not> confirm then [Warning ''Skip''] else []);
                         t3 = t2 @ [CreateRef_call interactive_org name
                                      (''ref/tags/v'' @ String new) sha] in
                     case noError (Git_CreateRef c interactive_org name
                                     (''ref/tags/v'' @ String new) sha) of
                       Inl e \<Rightarrow> (t3, Inl e)
                     | Inr created \<Rightarrow>
                         (case interactive_createTags c ask repos of
                            (t, res) \<Rightarrow>
                              (t3 @ [Info (''Created ref: '' @ fst created @ '' (SHA: '' @
                                           snd created @ '')'')] @ t, res))))))"


section \<open>Notions used to state the properties\<close>

text \<open>Events by kind.\<close>

definition isCreateRef :: "event \<Rightarrow> bool" where
  "isCreateRef e = (case e of CreateRef_call org name ref sha \<Rightarrow> True | _ \<Rightarrow> False)"


definition isCreateOrSkip :: "event \<Rightarrow> bool" where
  "isCreateOrSkip e = (isCreateRef e \<or> e = Warning ''Skip'')"

text \<open>
  The text of the prompt of the interactive \<open>createTags\<close> for the new version
  \<open>new\<close>, the default branch \<open>branch\<close> and the commit \<open>sha\<close>.
\<close>

definition confirmQuestion :: "Version \<Rightarrow> string \<Rightarrow> string \<Rightarrow> string" where
  "confirmQuestion new branch sha =
     ''Confirm you want to create tag v'' @ String new @ '' on branch '' @ branch @
     '' (SHA: '' @ sha @ '')''"

text \<open>
  The two checks of \<open>fetchRepos\<close> in gh-tag-creator on one input line, as a predicate:
  \<open>strings.Split\<close> of the line at the space gives exactly two pieces, and
  \<open>strings.Split\<close> at \<open>/\<close> of the first piece, with a leading \<open>github.com/\<close>
  removed when it has one, gives exactly two pieces. A piece may be empty. \<open>lineOrg\<close>,
  \<open>lineName\<close> and \<open>lineTag\<close> are what \<open>fetchRepos\<close> reads off such a line.
\<close>

definition acceptedLine :: "string \<Rightarrow> bool" where
  "acceptedLine line =
     (length (Split line (CHR '' '')) = 2 \<and>
      length (Split (TrimPrefix (Split line (CHR '' '') ! 0) ''github.com/'') (CHR ''/'')) = 2)"

definition lineOrg :: "string \<Rightarrow> string" where
  "lineOrg line = Split (TrimPrefix (Split line (CHR '' '') ! 0) ''github.com/'') (CHR ''/'') ! 0"

definition lineName :: "string \<Rightarrow> string" where
  "lineName line = Split (TrimPrefix (Split line (CHR '' '') ! 0) ''github.com/'') (CHR ''/'') ! 1"

definition lineTag :: "string \<Rightarrow> string" where
  "lineTag line = Split line (CHR '' '') ! 1"

text \<open>
  A line as the specification words it: exactly two tokens separated by a space, the
  first of them a reference \<open>host/org/repo\<close>, that is three non-empty parts separated
  by \<open>/\<close>. A token is not empty.
\<close>

definition hostOrgRepoLine :: "string \<Rightarrow> bool" where
  "hostOrgRepoLine line =
     (case Split line (CHR '' '') of
        [reference, tagname] \<Rightarrow>
          reference \<noteq> [] \<and> tagname \<noteq> [] \<and>
          (case Split reference (CHR ''/'') of
             [host, org, name] \<Rightarrow> host \<noteq> [] \<and> org \<noteq> [] \<and> name \<noteq> []
           | _ \<Rightarrow> False)
      | _ \<Rightarrow> False)"

text \<open>
  Decimal numerals. \<open>digitRun\<close> is a non-empty run of digits, \<open>decimal64\<close> one whose
  value is below \<open>2\<^sup>6\<^sup>4\<close>, \<open>canonical\<close> one without a leading zero, and
  \<open>numeral64\<close> one that is both.
\<close>

definition digitRun :: "string \<Rightarrow> bool" where
  "digitRun d = (d \<noteq> [] \<and> list_all isDigit d)"

definition decimal64 :: "string \<Rightarrow> bool" where
  "decimal64 d = (d \<noteq> [] \<and> list_all isDigit d \<and> digitsVal 0 d < 2 ^ 64)"

definition canonical :: "string \<Rightarrow> bool" where
  "canonical s = (s \<noteq> [] \<and> list_all isDigit s \<and> (length s > 1 \<longrightarrow> hd s \<noteq> CHR ''0''))"

definition numeral64 :: "string \<Rightarrow> bool" where
  "numeral64 d = (canonical d \<and> digitsVal 0 d < 2 ^ 64)"

text \<open>
  The pieces a version string is put together from: \<open>dotted d\<close> is \<open>.d\<close>, or nothing
  when \<open>d\<close> is absent; \<open>suffixes p m\<close> is \<open>-p+m\<close>, each of the two parts left out
  when absent. A pre-release \<open>p\<close> is well formed (\<open>prereleaseOK\<close>) when its
  identifiers, separated by dots, are non-empty runs of letters, digits and hyphens, none
  of them a run of two or more digits that starts with \<open>0\<close>; build metadata
  (\<open>buildOK\<close>) when its identifiers are non-empty runs of letters, digits and hyphens.
\<close>

definition dotted :: "string \<Rightarrow> string" where
  "dotted d = (if d = [] then [] else ''.'' @ d)"

definition suffixes :: "string \<Rightarrow> string \<Rightarrow> string" where
  "suffixes p m = (if p = [] then [] else ''-'' @ p) @ (if m = [] then [] else ''+'' @ m)"

definition prereleaseOK :: "string \<Rightarrow> bool" where
  "prereleaseOK p =
     list_all (\<lambda>i. i \<noteq> [] \<and> list_all allowed i \<and>
                   \<not> (list_all isDigit i \<and> length i > 1 \<and> hd i = CHR ''0''))
       (Split p (CHR ''.''))"

definition buildOK :: "string \<Rightarrow> bool" where
  "buildOK m = list_all (\<lambda>i. i \<noteq> [] \<and> list_all allowed i) (Split m (CHR ''.''))"

text \<open>
  The grammar as the specification words it, \<open>vMAJOR.MINOR.PATCH[-PRERELEASE][+BUILD]\<close>
  with the leading \<open>v\<close> optional: after the \<open>v\<close>, three runs of digits separated by
  dots, then an optional hyphen and dot-separated identifiers, then an optional plus sign
  and dot-separated identifiers. It is not taken from the code; the parser is compared
  with it.
\<close>

definition specGrammar :: "string \<Rightarrow> bool" where
  "specGrammar s =
     (let body = TrimPrefix s ''v'';
          core = takeWhile (\<lambda>c. c \<noteq> CHR ''-'' \<and> c \<noteq> CHR ''+'') body;
          rest = dropWhile (\<lambda>c. c \<noteq> CHR ''-'' \<and> c \<noteq> CHR ''+'') body
      in (case Split core (CHR ''.'') of
            [a, b, c] \<Rightarrow> digitRun a \<and> digitRun b \<and> digitRun c
          | _ \<Rightarrow> False) \<and>
         (case rest of
            [] \<Rightarrow> True
          | x # xs \<Rightarrow>
              if x = CHR ''-'' then
                buildOK (takeWhile (\<lambda>c. c \<noteq> CHR ''+'') xs) \<and>
                (dropWhile (\<lambda>c. c \<noteq> CHR ''+'') xs = [] \<or>
                 buildOK (tl (dropWhile (\<lambda>c. c \<noteq> CHR ''+'') xs)))
              else buildOK xs))"

text \<open>
  The pre-release identifiers the parser lets through: non-empty, and without a leading
  zero when numeric. \<open>okPart\<close> adds the empty string, which the comparison loop uses as
  padding. \<open>partKey\<close> ranks an identifier: the padding, then numbers by value, then
  text by its bytes.
\<close>

definition wfPart :: "string \<Rightarrow> bool" where
  "wfPart p = (p \<noteq> [] \<and> (list_all isDigit p \<and> length p > 1 \<longrightarrow> hd p \<noteq> CHR ''0''))"

definition okPart :: "string \<Rightarrow> bool" where
  "okPart p = (p = [] \<or> wfPart p)"

definition partKey :: "string \<Rightarrow> nat \<times> nat \<times> string" where
  "partKey s =
     (if s = [] then (0, 0, [])
      else case ParseUint s of Some a \<Rightarrow> (1, unat a, []) | None \<Rightarrow> (2, 0, s))"

fun keyLess :: "nat \<times> nat \<times> string \<Rightarrow> nat \<times> nat \<times> string \<Rightarrow> bool" where
  "keyLess (r1, n1, s1) (r2, n2, s2) =
     (r1 < r2 \<or> (r1 = r2 \<and> (n1 < n2 \<or> (n1 = n2 \<and> strLess s1 s2))))"

definition wfVersion :: "Version \<Rightarrow> bool" where
  "wfVersion v = (pre v = [] \<or> list_all wfPart (Split (pre v) (CHR ''.'')))"

text \<open>The last step of \<open>Compare\<close>, on the two pre-releases.\<close>

definition comparePre :: "string \<Rightarrow> string \<Rightarrow> int" where
  "comparePre p q =
     (if p = [] \<and> q = [] then 0 else if p = [] then 1 else if q = [] then -1
      else comparePrerelease p q)"

text \<open>
  Precedence as SemVer 2.0 words it (its section 11), on the fields of a version: the
  major, minor and patch numbers are compared as numbers, in this order; when they are
  equal a version without a pre-release is the higher one; two pre-releases are compared
  identifier by identifier, two runs of digits as numbers, two other identifiers by their
  bytes, a run of digits below any other identifier, and when one list is a prefix of the
  other the longer one is the higher. The result is -1, 0 or 1. It is not taken from the
  code; \<open>Compare\<close> is compared with it. \<open>identifiersInRange v\<close> holds when every
  identifier of the pre-release of \<open>v\<close> that is a run of digits has a value below
  \<open>2\<^sup>6\<^sup>4\<close>.
\<close>

definition semver_compareIdent :: "string \<Rightarrow> string \<Rightarrow> int" where
  "semver_compareIdent s t =
     (if digitRun s \<and> digitRun t then
        (if digitsVal 0 s < digitsVal 0 t then -1
         else if digitsVal 0 t < digitsVal 0 s then 1 else 0)
      else if digitRun s then -1
      else if digitRun t then 1
      else if strLess s t then -1
      else if strLess t s then 1 else 0)"

fun semver_compareIdents :: "string list \<Rightarrow> string list \<Rightarrow> int" where
  "semver_compareIdents [] [] = 0"
| "semver_compareIdents [] (t # ts) = -1"
| "semver_compareIdents (s # ss) [] = 1"
| "semver_compareIdents (s # ss) (t # ts) =
     (if semver_compareIdent s t \<noteq> 0 then semver_compareIdent s t
      else semver_compareIdents ss ts)"

definition semver_precedence :: "Version \<Rightarrow> Version \<Rightarrow> int" where
  "semver_precedence v w =
     (if unat (major v) \<noteq> unat (major w) then (if unat (major v) < unat (major w) then -1 else 1)
      else if unat (minor v) \<noteq> unat (minor w) then (if unat (minor v) < unat (minor w) then -1 else 1)
      else if unat (patch v) \<noteq> unat (patch w) then (if unat (patch v) < unat (patch w) then -1 else 1)
      else if pre v = [] \<and> pre w = [] then 0
      else if pre v = [] then 1
      else if pre w = [] then -1
      else semver_compareIdents (Split (pre v) (CHR ''.'')) (Split (pre w) (CHR ''.'')))"

definition identInRange :: "string \<Rightarrow> bool" where
  "identInRange i = (\<not> digitRun i \<or> digitsVal 0 i < 2 ^ 64)"

definition identifiersInRange :: "Version \<Rightarrow> bool" where
  "identifiersInRange v = list_all identInRange (Split (pre v) (CHR ''.''))"

text \<open>
  A small organization for the concrete runs: two repositories, \<open>A\<close> with the tags
  \<open>v1.0.0\<close> and \<open>v1.1.0\<close> and \<open>B\<close> with none; every commit lookup answers
  with the same SHA and every reference can be created. \<open>example_selection\<close> is a
  selection of the interactive tagger: both repositories, each with its new version.
\<close>

definition repoA :: Repository where
  "repoA = \<lparr>Name = ''A'', FullName = ''org/A'', DefaultBranch = ''main'', OwnerLogin = ''org''\<rparr>"

definition repoB :: Repository where
  "repoB = \<lparr>Name = ''B'', FullName = ''org/B'', DefaultBranch = ''main'', OwnerLogin = ''org''\<rparr>"

definition example_client :: Client where
  "example_client =
     \<lparr>Repositories_ListByOrg = (\<lambda>org. if org = ''org'' then Inr [repoA, repoB] else Inl ''404 Not Found''),
      Git_ListMatchingRefs = (\<lambda>org name ref.
         if name = ''A'' then Inr [''refs/tags/v1.0.0'', ''refs/tags/v1.1.0''] else Inr []),
      Repositories_Get = (\<lambda>org name.
         if org = ''org'' \<and> name = ''A'' then Inr repoA
         else if org = ''org'' \<and> name = ''B'' then Inr repoB
         else Inl ''404 Not Found''),
      Repositories_GetCommit = (\<lambda>org name branch. Inr ''c0ffee''),
      Git_CreateRef = (\<lambda>org name ref sha. Inr (ref, sha))\<rparr>"

definition example_selection :: "repo list" where
  "example_selection =
     [\<lparr>repo = repoB, latestTag = None,
       newTag = Some \<lparr>major = 0, minor = 1, patch = 0, pre = [], metadata = [],
                      original = ''v0.1.0''\<rparr>\<rparr>,
      \<lparr>repo = repoA, latestTag = None,
       newTag = Some \<lparr>major = 1, minor = 2, patch = 0, pre = [], metadata = [],
                      original = ''v1.2.0''\<rparr>\<rparr>]"


section \<open>Evaluation\<close>

text \<open>The defining equations that evaluate the library and the programs on a concrete input.\<close>

lemmas semver_eval =
  NewVersion_def versionRegex_def dotDigits_def versionTail_def isDigit_def ParseUint_def
  TrimPrefix_def identifiers_def allowed_def isUpper_def isLower_def digitVal_def
  validatePrerelease_def validateMetadata_def containsOnly_def Compare_def compareSegment_def
  comparePrerelease_def comparePrePart_def String_def formatUint.simps digitChar_def
  MustParse_def IncMajor_def IncMinor_def IncPatch_def originalVPrefix_def Let_def

lemmas program_eval =
  fetcher_main_def parseFlags_def fetchRepos_def fetchLatestTag_def latestOf_def sort_Sort_def
  Less_def bumpVersion_def versionToString_def reposToStdOutput_def printRepos_def
  creator_main_def creator_parseFlags_def creator_reposToStdOutput_def interactive_org_def
  example_client_def repoA_def repoB_def isCreateRef_def

lemmas grammar_eval = specGrammar_def digitRun_def buildOK_def prereleaseOK_def numeral64_def
  decimal64_def canonical_def suffixes_def dotted_def

lemmas precedence_eval = semver_precedence_def semver_compareIdent_def identifiersInRange_def
  identInRange_def digitRun_def


section \<open>Properties of the version bump\<close>

lemma MustParse_zero:
  "MustParse ''v0.0.0'' =
     Inr \<lparr>major = 0, minor = 0, patch = 0, pre = [], metadata = [], original = ''v0.0.0''\<rparr>"
  by (simp add: semver_eval)

lemma IncPatch_fields:
  "major (IncPatch v) = major v \<and> minor (IncPatch v) = minor v \<and>
   patch (IncPatch v) = (if pre v = [] then patch v + 1 else patch v) \<and>
   pre (IncPatch v) = [] \<and> metadata (IncPatch v) = []"
  by (simp add: IncPatch_def Let_def)

lemma IncMinor_fields:
  "major (IncMinor v) = major v \<and> minor (IncMinor v) = minor v + 1 \<and>
   patch (IncMinor v) = 0 \<and> pre (IncMinor v) = [] \<and> metadata (IncMinor v) = []"
  by (simp add: IncMinor_def Let_def)

lemma IncMajor_fields:
  "major (IncMajor v) = major v + 1 \<and> minor (IncMajor v) = 0 \<and>
   patch (IncMajor v) = 0 \<and> pre (IncMajor v) = [] \<and> metadata (IncMajor v) = []"
  by (simp add: IncMajor_def Let_def)



text \<open>
  C2, as the code has it. Bumping a version \<open>v\<close> with kind \<open>patch\<close> always returns a
  version with the major and minor numbers of \<open>v\<close> and with no pre-release and no
  build metadata. Its patch number is \<open>patch v + 1\<close> (the addition of \<open>uint64\<close>)
  when \<open>v\<close> has no pre-release, whether or not it has build metadata, and the patch
  number of \<open>v\<close> itself when \<open>v\<close> has a pre-release. In particular the bump of
  \<open>1.2.3\<close> is \<open>1.2.4\<close>.
\<close>

theorem bumpVersion_patch:
  "(\<exists>r. bumpVersion (Some v) ''patch'' = Inr r \<and>
        major r = major v \<and> minor r = minor v \<and>
        patch r = (if pre v = [] then patch v + 1 else patch v) \<and>
        pre r = [] \<and> metadata r = []) \<and>
   (\<exists>a r. NewVersion ''1.2.3'' = Some a \<and> bumpVersion (Some a) ''patch'' = Inr r \<and>
        String r = ''1.2.4'')"
proof
  show "\<exists>r. bumpVersion (Some v) ''patch'' = Inr r \<and>
        major r = major v \<and> minor r = minor v \<and>
        patch r = (if pre v = [] then patch v + 1 else patch v) \<and>
        pre r = [] \<and> metadata r = []"
    using IncPatch_fields [of v] by (simp add: bumpVersion_def)
  show "\<exists>a r. NewVersion ''1.2.3'' = Some a \<and> bumpVersion (Some a) ''patch'' = Inr r \<and>
        String r = ''1.2.4''"
    by (simp add: bumpVersion_def semver_eval)
qed

theorem bumpVersion_patch_witness:
  "\<exists>r. bumpVersion (Some \<lparr>major = 4, minor = 5, patch = 6, pre = [], metadata = ''build7'',
                            original = ''v4.5.6+build7''\<rparr>) ''patch'' = Inr r \<and>
       major r = 4 \<and> minor r = 5 \<and> patch r = 7 \<and> pre r = [] \<and> metadata r = []"
  using bumpVersion_patch
    [of "\<lparr>major = 4, minor = 5, patch = 6, pre = [], metadata = ''build7'',
          original = ''v4.5.6+build7''\<rparr>"]
  by simp

text \<open>
  C2 as the claim states it fails on a version with a pre-release: the tag
  \<open>1.2.3-rc1\<close> parses, and its patch bump is \<open>1.2.3\<close>, whose patch number is 3 and
  not 3 + 1.
\<close>

theorem bumpVersion_patch_prerelease_counterexample:
  "NewVersion ''1.2.3-rc1'' =
     Some \<lparr>major = 1, minor = 2, patch = 3, pre = ''rc1'', metadata = [],
           original = ''1.2.3-rc1''\<rparr> \<and>
   bumpVersion (Some \<lparr>major = 1, minor = 2, patch = 3, pre = ''rc1'', metadata = [],
                      original = ''1.2.3-rc1''\<rparr>) ''patch'' =
     Inr \<lparr>major = 1, minor = 2, patch = 3, pre = [], metadata = [], original = ''1.2.3''\<rparr> \<and>
   (3 :: 64 word) \<noteq> 3 + 1"
  by (simp add: bumpVersion_def semver_eval)

lemma unat_succ64: "unat (a + 1 :: 64 word) = (unat a + 1) mod 2 ^ 64"
  by (simp add: unat_word_ariths)

text \<open>
  C3, as the code has it. Bumping a version \<open>v\<close> with kind \<open>major\<close> returns a
  version with the major number \<open>(major v + 1) mod 2\<^sup>6\<^sup>4\<close> and the minor and patch
  numbers 0, and with kind \<open>minor\<close> one with the major number of \<open>v\<close>, the minor
  number \<open>(minor v + 1) mod 2\<^sup>6\<^sup>4\<close> and the patch number 0, both with no pre-release
  and no build metadata: the components are \<open>uint64\<close> and their addition wraps. An
  absent version is bumped as \<open>0.0.0\<close> is. In particular the minor bump of an absent
  version is \<open>0.1.0\<close>, the major bump of \<open>1.2.3\<close> is \<open>2.0.0\<close> and the minor bump
  of \<open>1.2.3-rc1\<close> is \<open>1.3.0\<close>.
\<close>

theorem bumpVersion_major_minor:
  "(\<exists>r. bumpVersion (Some v) ''major'' = Inr r \<and>
        unat (major r) = (unat (major v) + 1) mod 2 ^ 64 \<and> minor r = 0 \<and> patch r = 0 \<and>
        pre r = [] \<and> metadata r = []) \<and>
   (\<exists>r. bumpVersion (Some v) ''minor'' = Inr r \<and>
        major r = major v \<and> unat (minor r) = (unat (minor v) + 1) mod 2 ^ 64 \<and> patch r = 0 \<and>
        pre r = [] \<and> metadata r = []) \<and>
   bumpVersion None bump =
     bumpVersion (Some \<lparr>major = 0, minor = 0, patch = 0, pre = [], metadata = [],
                        original = ''v0.0.0''\<rparr>) bump \<and>
   (\<exists>r. bumpVersion None ''minor'' = Inr r \<and> String r = ''0.1.0'') \<and>
   (\<exists>a r. NewVersion ''1.2.3'' = Some a \<and> bumpVersion (Some a) ''major'' = Inr r \<and>
        String r = ''2.0.0'') \<and>
   (\<exists>a r. NewVersion ''1.2.3-rc1'' = Some a \<and> bumpVersion (Some a) ''minor'' = Inr r \<and>
        String r = ''1.3.0'')"
proof (intro conjI)
  show "\<exists>r. bumpVersion (Some v) ''major'' = Inr r \<and>
        unat (major r) = (unat (major v) + 1) mod 2 ^ 64 \<and> minor r = 0 \<and> patch r = 0 \<and>
        pre r = [] \<and> metadata r = []"
    using IncMajor_fields [of v] by (simp add: bumpVersion_def unat_succ64)
  show "\<exists>r. bumpVersion (Some v) ''minor'' = Inr r \<and>
        major r = major v \<and> unat (minor r) = (unat (minor v) + 1) mod 2 ^ 64 \<and> patch r = 0 \<and>
        pre r = [] \<and> metadata r = []"
    using IncMinor_fields [of v] by (simp add: bumpVersion_def unat_succ64)
  show "bumpVersion None bump =
     bumpVersion (Some \<lparr>major = 0, minor = 0, patch = 0, pre = [], metadata = [],
                        original = ''v0.0.0''\<rparr>) bump"
    by (simp add: bumpVersion_def MustParse_zero)
  show "\<exists>r. bumpVersion None ''minor'' = Inr r \<and> String r = ''0.1.0''"
    by (simp add: bumpVersion_def semver_eval)
  show "\<exists>a r. NewVersion ''1.2.3'' = Some a \<and> bumpVersion (Some a) ''major'' = Inr r \<and>
        String r = ''2.0.0''"
    by (simp add: bumpVersion_def semver_eval)
  show "\<exists>a r. NewVersion ''1.2.3-rc1'' = Some a \<and> bumpVersion (Some a) ''minor'' = Inr r \<and>
        String r = ''1.3.0''"
    by (simp add: bumpVersion_def semver_eval)
qed

text \<open>C3 on the version \<open>4.5.6-beta.2+build7\<close>: its bumps are \<open>5.0.0\<close> and \<open>4.6.0\<close>.\<close>

theorem bumpVersion_major_minor_witness:
  "(\<exists>r. bumpVersion (Some \<lparr>major = 4, minor = 5, patch = 6, pre = ''beta.2'',
                             metadata = ''build7'', original = ''v4.5.6-beta.2+build7''\<rparr>)
          ''major'' = Inr r \<and>
        unat (major r) = 5 \<and> minor r = 0 \<and> patch r = 0 \<and> pre r = [] \<and> metadata r = []) \<and>
   (\<exists>r. bumpVersion (Some \<lparr>major = 4, minor = 5, patch = 6, pre = ''beta.2'',
                             metadata = ''build7'', original = ''v4.5.6-beta.2+build7''\<rparr>)
          ''minor'' = Inr r \<and>
        major r = 4 \<and> unat (minor r) = 6 \<and> patch r = 0 \<and> pre r = [] \<and> metadata r = [])"
  using bumpVersion_major_minor
    [of "\<lparr>major = 4, minor = 5, patch = 6, pre = ''beta.2'', metadata = ''build7'',
          original = ''v4.5.6-beta.2+build7''\<rparr>"]
  by simp

text \<open>
  C3 as the claim states it fails at the largest major number: the tag
  \<open>v18446744073709551615.2.3\<close> parses, and its major bump is \<open>0.0.0\<close>, whose major
  number is 0 and not 18446744073709551615 + 1.
\<close>

theorem bumpVersion_major_wraps_counterexample:
  "NewVersion ''v18446744073709551615.2.3'' =
     Some \<lparr>major = 18446744073709551615, minor = 2, patch = 3, pre = [], metadata = [],
           original = ''v18446744073709551615.2.3''\<rparr> \<and>
   unat (18446744073709551615 :: 64 word) = 18446744073709551615 \<and>
   bumpVersion (Some \<lparr>major = 18446744073709551615, minor = 2, patch = 3, pre = [],
                      metadata = [], original = ''v18446744073709551615.2.3''\<rparr>) ''major'' =
     Inr \<lparr>major = 0, minor = 0, patch = 0, pre = [], metadata = [], original = ''v0.0.0''\<rparr> \<and>
   unat (0 :: 64 word) \<noteq> 18446744073709551615 + 1"
  by (simp add: bumpVersion_def semver_eval)


section \<open>Decimal numerals and the byte order\<close>

lemma strLess_irrefl: "\<not> strLess s s"
  by (induction s) auto

lemma strLess_trans: "strLess a b \<Longrightarrow> strLess b c \<Longrightarrow> strLess a c"
proof (induction a arbitrary: b c)
  case Nil
  then show ?case by (cases b; cases c) auto
next
  case (Cons x xs)
  then show ?case by (cases b; cases c) auto
qed

lemma strLess_total: "a \<noteq> b \<Longrightarrow> strLess a b \<or> strLess b a"
proof (induction a b rule: strLess.induct)
  case (4 x xs y ys)
  then show ?case
    by (cases "(of_char x :: nat) < of_char y"; cases "(of_char y :: nat) < of_char x") auto
qed auto

lemma strLess_asym: "strLess a b \<Longrightarrow> \<not> strLess b a"
  using strLess_trans strLess_irrefl by blast

lemma digitsVal_append: "digitsVal acc (xs @ [d]) = 10 * digitsVal acc xs + digitVal d"
  by (induction xs arbitrary: acc) auto

lemma digitVal_less: "isDigit d \<Longrightarrow> digitVal d < 10"
  by (auto simp: isDigit_def digitVal_def)

lemma of_char_digitChar: "k < 10 \<Longrightarrow> (of_char (digitChar k) :: nat) = 48 + k"
proof -
  assume "k < 10"
  then consider "k = 0" | "k = 1" | "k = 2" | "k = 3" | "k = 4"
    | "k = 5" | "k = 6" | "k = 7" | "k = 8" | "k = 9" by atomize_elim arith
  then show ?thesis by cases (simp_all add: digitChar_def)
qed

lemma digitChar_digitVal: "isDigit d \<Longrightarrow> digitChar (digitVal d) = d"
proof -
  assume d: "isDigit d"
  then have "(of_char (digitChar (digitVal d)) :: nat) = of_char d"
    using of_char_digitChar [OF digitVal_less [OF d]] by (simp add: isDigit_def digitVal_def)
  then show ?thesis by simp
qed

lemma digitsVal_pos:
  "list_all isDigit s \<Longrightarrow> s \<noteq> [] \<Longrightarrow> hd s \<noteq> CHR ''0'' \<Longrightarrow> acc = 0 \<Longrightarrow> 0 < digitsVal acc s"
proof (induction s rule: rev_induct)
  case Nil
  then show ?case by simp
next
  case (snoc d ds)
  show ?case
  proof (cases "ds = []")
    case True
    have "digitVal d \<noteq> 0"
    proof
      assume "digitVal d = 0"
      with snoc.prems True have "(of_char d :: nat) = of_char (CHR ''0'')"
        by (simp add: digitVal_def isDigit_def)
      then have "d = CHR ''0''" by (simp only: of_char_eq_iff)
      with snoc.prems True show False by simp
    qed
    with True snoc.prems show ?thesis by simp
  next
    case False
    with snoc have "0 < digitsVal acc ds" by simp
    then show ?thesis by (simp add: digitsVal_append)
  qed
qed

lemma formatUint_digitsVal: "canonical s \<Longrightarrow> formatUint (digitsVal 0 s) = s"
proof (induction s rule: rev_induct)
  case Nil
  then show ?case by (simp add: canonical_def)
next
  case (snoc d ds)
  from snoc.prems have d: "isDigit d" by (simp add: canonical_def)
  show ?case
  proof (cases "ds = []")
    case True
    with d show ?thesis
      by (simp add: formatUint.simps digitVal_less digitChar_digitVal)
  next
    case False
    with snoc.prems have c: "canonical ds" and h: "hd ds \<noteq> CHR ''0''"
      by (auto simp: canonical_def)
    from c h False have "0 < digitsVal 0 ds"
      by (intro digitsVal_pos) (auto simp: canonical_def)
    then have big: "\<not> 10 * digitsVal 0 ds + digitVal d < 10" by simp
    have dv: "(10 * digitsVal 0 ds + digitVal d) div 10 = digitsVal 0 ds"
      and md: "(10 * digitsVal 0 ds + digitVal d) mod 10 = digitVal d"
      using digitVal_less [OF d] by auto
    show ?thesis
      using snoc.IH [OF c] d
      by (subst digitsVal_append, subst formatUint.simps)
         (simp only: big dv md if_False digitChar_digitVal)
  qed
qed

lemma ParseUint_Some:
  "ParseUint s = Some a \<Longrightarrow>
     s \<noteq> [] \<and> list_all isDigit s \<and> digitsVal 0 s < 2 ^ 64 \<and> unat a = digitsVal 0 s"
  by (auto simp: ParseUint_def unat_of_nat split: if_splits)

lemma formatUint_ParseUint: "canonical m \<Longrightarrow> ParseUint m = Some a \<Longrightarrow> formatUint (unat a) = m"
  using ParseUint_Some [of m a] by (simp add: formatUint_digitsVal)


section \<open>Precedence is a total preorder on parsed versions\<close>

lemma wfPart_ParseUint_inj:
  assumes "wfPart s" and "wfPart t"
    and "ParseUint s = Some a" and "ParseUint t = Some b" and "unat a = unat b"
  shows "s = t"
proof -
  from assms(1,3) have cs: "canonical s"
    using ParseUint_Some [of s a] by (auto simp: wfPart_def canonical_def)
  from assms(2,4) have ct: "canonical t"
    using ParseUint_Some [of t b] by (auto simp: wfPart_def canonical_def)
  from assms(3,4,5) have "digitsVal 0 s = digitsVal 0 t"
    using ParseUint_Some [of s a] ParseUint_Some [of t b] by simp
  then have "formatUint (digitsVal 0 s) = formatUint (digitsVal 0 t)" by simp
  with cs ct show ?thesis by (simp add: formatUint_digitsVal)
qed

lemma keyLess_irrefl: "\<not> keyLess k k"
  by (cases k) (auto simp: strLess_irrefl)

lemma keyLess_trans: "keyLess a b \<Longrightarrow> keyLess b c \<Longrightarrow> keyLess a c"
  by (cases a; cases b; cases c) (auto intro: strLess_trans)

lemma keyLess_total: "a \<noteq> b \<Longrightarrow> keyLess a b \<or> keyLess b a"
  using strLess_total by (cases a; cases b) fastforce

lemma partKey_inj: "okPart s \<Longrightarrow> okPart t \<Longrightarrow> partKey s = partKey t \<Longrightarrow> s = t"
  by (auto simp: partKey_def okPart_def split: if_splits option.splits
           dest: wfPart_ParseUint_inj)

lemma comparePrePart_key:
  assumes "okPart s" and "okPart t"
  shows "comparePrePart s t =
           (if s = t then 0 else if keyLess (partKey s) (partKey t) then -1 else 1)"
proof (cases "s = t")
  case True
  then show ?thesis by (simp add: comparePrePart_def)
next
  case False
  note ne = this
  show ?thesis
  proof (cases "s = [] \<or> t = []")
    case True
    with ne show ?thesis
      by (auto simp: comparePrePart_def partKey_def split: option.splits)
  next
    case False
    then have s: "s \<noteq> []" and t: "t \<noteq> []" by auto
    show ?thesis
    proof (cases "ParseUint s")
      case None
      note ps = this
      show ?thesis
      proof (cases "ParseUint t")
        case None
        with ps ne s t show ?thesis
          using strLess_total [of s t] strLess_asym [of s t]
          by (auto simp: comparePrePart_def partKey_def)
      next
        case (Some b)
        with ps ne s t show ?thesis by (simp add: comparePrePart_def partKey_def)
      qed
    next
      case (Some a)
      note ps = this
      show ?thesis
      proof (cases "ParseUint t")
        case None
        with ps ne s t show ?thesis by (simp add: comparePrePart_def partKey_def)
      next
        case (Some b)
        have "unat a \<noteq> unat b"
          using wfPart_ParseUint_inj [of s t a b] assms ps Some ne s t
          by (auto simp: okPart_def)
        with ps Some ne s t show ?thesis
          by (auto simp: comparePrePart_def partKey_def word_less_nat_alt)
      qed
    qed
  qed
qed

lemma comparePrePart_antisym:
  "okPart s \<Longrightarrow> okPart t \<Longrightarrow> comparePrePart t s = - comparePrePart s t"
  using keyLess_total [of "partKey s" "partKey t"] keyLess_trans [of "partKey s" "partKey t" "partKey s"]
    keyLess_irrefl [of "partKey s"] partKey_inj [of s t]
  by (auto simp: comparePrePart_key)

lemma comparePrePart_zero:
  "okPart s \<Longrightarrow> okPart t \<Longrightarrow> comparePrePart s t = 0 \<Longrightarrow> s = t"
  by (auto simp: comparePrePart_key split: if_splits)

lemma comparePrePart_trans:
  assumes "okPart a" and "okPart b" and "okPart c"
    and "comparePrePart a b \<le> 0" and "comparePrePart b c \<le> 0"
  shows "comparePrePart a c \<le> 0"
proof (cases "a = b \<or> b = c")
  case True
  with assms show ?thesis by auto
next
  case False
  with assms have "keyLess (partKey a) (partKey b)" and "keyLess (partKey b) (partKey c)"
    by (auto simp: comparePrePart_key split: if_splits)
  then have "keyLess (partKey a) (partKey c)" by (rule keyLess_trans)
  with assms show ?thesis by (auto simp: comparePrePart_key)
qed

lemma comparePrePart_pad:
  "wfPart s \<Longrightarrow> comparePrePart s [] = 1" "wfPart s \<Longrightarrow> comparePrePart [] s = -1"
  by (auto simp: comparePrePart_def wfPart_def)

lemma parts_Nil_right: "list_all wfPart xs \<Longrightarrow> xs \<noteq> [] \<Longrightarrow> comparePrerelease_parts xs [] = 1"
  by (cases xs) (auto simp: comparePrePart_pad Let_def)

lemma parts_Nil_left: "list_all wfPart ys \<Longrightarrow> ys \<noteq> [] \<Longrightarrow> comparePrerelease_parts [] ys = -1"
  by (cases ys) (auto simp: comparePrePart_pad Let_def)

lemma parts_Cons:
  "comparePrerelease_parts (s # ss) (t # ts) =
     (if comparePrePart s t \<noteq> 0 then comparePrePart s t else comparePrerelease_parts ss ts)"
  by (simp add: Let_def)

lemma parts_antisym:
  "list_all wfPart xs \<Longrightarrow> list_all wfPart ys \<Longrightarrow>
     comparePrerelease_parts ys xs = - comparePrerelease_parts xs ys"
proof (induction xs arbitrary: ys)
  case Nil
  then show ?case by (cases "ys = []") (simp_all add: parts_Nil_left parts_Nil_right)
next
  case (Cons s ss)
  show ?case
  proof (cases ys)
    case Nil
    with Cons.prems show ?thesis
      using parts_Nil_right [of "s # ss"] parts_Nil_left [of "s # ss"]
      by (simp del: comparePrerelease_parts.simps)
  next
    case (Cons t ts)
    with Cons.prems have ok: "okPart s" "okPart t" by (auto simp: okPart_def)
    from Cons Cons.prems Cons.IH [of ts] show ?thesis
      using comparePrePart_antisym [OF ok]
      by (simp only: parts_Cons) (auto simp: Let_def)
  qed
qed

lemma parts_trans:
  "list_all wfPart a \<Longrightarrow> list_all wfPart b \<Longrightarrow> list_all wfPart c \<Longrightarrow>
     comparePrerelease_parts a b \<le> 0 \<Longrightarrow> comparePrerelease_parts b c \<le> 0 \<Longrightarrow>
     comparePrerelease_parts a c \<le> 0"
proof (induction a arbitrary: b c)
  case Nil
  then show ?case by (cases "c = []") (simp_all add: parts_Nil_left)
next
  case (Cons x xs)
  show ?case
  proof (cases b)
    case Nil
    with Cons.prems show ?thesis using parts_Nil_right [of "x # xs"] by simp
  next
    case b: (Cons y ys)
    show ?thesis
    proof (cases c)
      case Nil
      with Cons.prems b show ?thesis using parts_Nil_right [of "y # ys"] by simp
    next
      case c: (Cons z zs)
      from Cons.prems b c have ok: "okPart x" "okPart y" "okPart z"
        and wf: "list_all wfPart xs" "list_all wfPart ys" "list_all wfPart zs"
        by (auto simp: okPart_def)
      from Cons.prems(4) b have xy: "comparePrePart x y \<le> 0"
        by (simp add: Let_def split: if_splits)
      from Cons.prems(5) b c have yz: "comparePrePart y z \<le> 0"
        by (simp add: Let_def split: if_splits)
      have xz: "comparePrePart x z \<le> 0"
        using comparePrePart_trans [OF ok xy yz] .
      show ?thesis
      proof (cases "comparePrePart x z = 0")
        case False
        with xz b c show ?thesis by (simp only: parts_Cons) simp
      next
        case True
        then have "x = z" using comparePrePart_zero ok by blast
        with xy yz have "comparePrePart x y = 0"
          using comparePrePart_antisym [OF ok(2) ok(1)] by simp
        then have "x = y" using comparePrePart_zero ok by blast
        with \<open>x = z\<close> Cons.prems b c have
          "comparePrerelease_parts xs ys \<le> 0" "comparePrerelease_parts ys zs \<le> 0"
          by (simp_all add: comparePrePart_def Let_def)
        then have "comparePrerelease_parts xs zs \<le> 0"
          using Cons.IH [OF wf] by simp
        with True b c show ?thesis by (simp only: parts_Cons) simp
      qed
    qed
  qed
qed

lemma Compare_lex:
  "Compare v w =
     (if major v \<noteq> major w then (if major v < major w then -1 else 1)
      else if minor v \<noteq> minor w then (if minor v < minor w then -1 else 1)
      else if patch v \<noteq> patch w then (if patch v < patch w then -1 else 1)
      else comparePre (pre v) (pre w))"
  by (auto simp: Compare_def compareSegment_def comparePre_def Let_def)

lemma comparePre_antisym:
  "wfVersion v \<Longrightarrow> wfVersion w \<Longrightarrow> comparePre (pre w) (pre v) = - comparePre (pre v) (pre w)"
  using parts_antisym [of "Split (pre v) (CHR ''.'')" "Split (pre w) (CHR ''.'')"]
  by (auto simp: comparePre_def comparePrerelease_def wfVersion_def)

lemma comparePre_trans:
  "wfVersion a \<Longrightarrow> wfVersion b \<Longrightarrow> wfVersion c \<Longrightarrow>
     comparePre (pre a) (pre b) \<le> 0 \<Longrightarrow> comparePre (pre b) (pre c) \<le> 0 \<Longrightarrow>
     comparePre (pre a) (pre c) \<le> 0"
  using parts_trans [of "Split (pre a) (CHR ''.'')" "Split (pre b) (CHR ''.'')" "Split (pre c) (CHR ''.'')"]
  by (auto simp: comparePre_def comparePrerelease_def wfVersion_def split: if_splits)

lemma Compare_antisym:
  "wfVersion v \<Longrightarrow> wfVersion w \<Longrightarrow> Compare w v = - Compare v w"
  using comparePre_antisym [of v w] by (auto simp: Compare_lex)

lemma Compare_trans:
  assumes "wfVersion a" and "wfVersion b" and "wfVersion c"
    and "Compare a b \<le> 0" and "Compare b c \<le> 0"
  shows "Compare a c \<le> 0"
proof -
  have mj: "major a \<le> major b" "major b \<le> major c"
    using assms(4,5) by (auto simp: Compare_lex split: if_splits)
  show ?thesis
  proof (cases "major a = major b \<and> major b = major c")
    case False
    with mj have "major a < major c" by auto
    then have "major a \<noteq> major c" by auto
    with \<open>major a < major c\<close> show ?thesis by (simp add: Compare_lex)
  next
    case True
    note M = this
    have mi: "minor a \<le> minor b" "minor b \<le> minor c"
      using assms(4,5) M by (auto simp: Compare_lex split: if_splits)
    show ?thesis
    proof (cases "minor a = minor b \<and> minor b = minor c")
      case False
      with mi have "minor a < minor c" by auto
      then have "minor a \<noteq> minor c" by auto
      with \<open>minor a < minor c\<close> M show ?thesis by (simp add: Compare_lex)
    next
      case True
      note N = this
      have pa: "patch a \<le> patch b" "patch b \<le> patch c"
        using assms(4,5) M N by (auto simp: Compare_lex split: if_splits)
      show ?thesis
      proof (cases "patch a = patch b \<and> patch b = patch c")
        case False
        with pa have "patch a < patch c" by auto
        then have "patch a \<noteq> patch c" by auto
        with \<open>patch a < patch c\<close> M N show ?thesis by (simp add: Compare_lex)
      next
        case True
        with M N assms(4,5) have
          "comparePre (pre a) (pre b) \<le> 0" "comparePre (pre b) (pre c) \<le> 0"
          by (simp_all add: Compare_lex)
        then have "comparePre (pre a) (pre c) \<le> 0"
          using comparePre_trans [OF assms(1-3)] by simp
        with M N True show ?thesis by (simp add: Compare_lex)
      qed
    qed
  qed
qed

lemma validatePrerelease_parts_wf:
  "validatePrerelease_parts ps \<Longrightarrow> list_all (\<lambda>p. p \<noteq> [] \<and> list_all allowed p) ps \<Longrightarrow>
     list_all wfPart ps"
  by (induction ps) (auto simp: wfPart_def containsOnly_def split: if_splits)

lemma versionTail_identifiers:
  "versionTail s = Some (m5, m8) \<Longrightarrow> m5 = [] \<or> identifiers m5"
  by (auto simp: versionTail_def Let_def split: list.splits if_splits)

lemma NewVersion_wf: "NewVersion s = Some v \<Longrightarrow> wfVersion v"
proof -
  assume a: "NewVersion s = Some v"
  then obtain m1 m2 m3 m5 m8 where r: "versionRegex s = Some (m1, m2, m3, m5, m8)"
    by (cases "versionRegex s") (auto simp: NewVersion_def)
  from r have id: "m5 = [] \<or> identifiers m5"
    by (auto simp: versionRegex_def Let_def split: prod.splits option.splits if_splits
             dest: versionTail_identifiers)
  from a r have p: "pre v = m5" and val: "m5 = [] \<or> validatePrerelease m5"
    by (auto simp: NewVersion_def split: option.splits if_splits)
  from id val have "m5 = [] \<or> list_all wfPart (Split m5 (CHR ''.''))"
    by (auto simp: identifiers_def validatePrerelease_def intro: validatePrerelease_parts_wf)
  with p show ?thesis by (simp add: wfVersion_def)
qed

lemma parseTags_set:
  "set (parseTags refs) = {v. \<exists>r \<in> set refs. NewVersion (TrimPrefix r ''refs/tags/'') = Some v}"
  by (induction refs) (auto split: option.splits)

lemma parseTags_wf: "v \<in> set (parseTags refs) \<Longrightarrow> wfVersion v"
  by (auto simp: parseTags_set dest: NewVersion_wf)


section \<open>The strings the parser accepts\<close>

text \<open>
  \<open>NewVersion\<close> accepts a string exactly when, after one optional leading \<open>v\<close>, it
  is a number, optionally followed by a second and then a third number, each after a dot,
  then an optional pre-release and optional build metadata; every number is a run of
  digits with a value below \<open>2\<^sup>6\<^sup>4\<close>.
\<close>

lemma identifiers_nonempty: "identifiers p \<Longrightarrow> p \<noteq> []"
  by (auto simp: identifiers_def)

lemma versionTail_dash:
  "versionTail (CHR ''-'' # cs) =
     (if \<not> identifiers (takeWhile (\<lambda>x. x \<noteq> CHR ''+'') cs) then None
      else if dropWhile (\<lambda>x. x \<noteq> CHR ''+'') cs = [] then
        Some (takeWhile (\<lambda>x. x \<noteq> CHR ''+'') cs, [])
      else if identifiers (tl (dropWhile (\<lambda>x. x \<noteq> CHR ''+'') cs)) then
        Some (takeWhile (\<lambda>x. x \<noteq> CHR ''+'') cs, tl (dropWhile (\<lambda>x. x \<noteq> CHR ''+'') cs))
      else None)"
  by (simp add: versionTail_def Let_def)

lemma versionTail_plus:
  "versionTail (CHR ''+'' # cs) = (if identifiers cs then Some ([], cs) else None)"
  by (simp add: versionTail_def)

lemma versionTail_other:
  "c \<noteq> CHR ''-'' \<Longrightarrow> c \<noteq> CHR ''+'' \<Longrightarrow> versionTail (c # cs) = None"
  by (simp add: versionTail_def)

lemma versionTail_shape:
  assumes a: "versionTail r = Some (m5, m8)"
  shows "r = (if m5 \<noteq> [] then ''-'' @ m5 else []) @ (if m8 \<noteq> [] then ''+'' @ m8 else [])"
proof (cases r)
  case Nil
  with a show ?thesis by (simp add: versionTail_def)
next
  case (Cons c cs)
  define p where "p = takeWhile (\<lambda>x. x \<noteq> CHR ''+'') cs"
  define q where "q = dropWhile (\<lambda>x. x \<noteq> CHR ''+'') cs"
  have cs: "p @ q = cs" by (simp add: p_def q_def)
  have hq: "q \<noteq> [] \<Longrightarrow> hd q = CHR ''+''"
    using hd_dropWhile [of "\<lambda>x. x \<noteq> CHR ''+''" cs] by (simp add: q_def)
  consider (dash) "c = CHR ''-''" | (plus) "c = CHR ''+''" | (other) "c \<noteq> CHR ''-''" "c \<noteq> CHR ''+''"
    by blast
  then show ?thesis
  proof cases
    case dash
    from a Cons dash have v: "(if \<not> identifiers p then None
      else if q = [] then Some (p, [])
      else if identifiers (tl q) then Some (p, tl q) else None) = Some (m5, m8)"
      by (simp only: versionTail_dash p_def q_def)
    then have ip: "identifiers p" by (simp split: if_splits)
    then have pne: "p \<noteq> []" by (rule identifiers_nonempty)
    show ?thesis
    proof (cases "q = []")
      case True
      with v ip have "m5 = p" "m8 = []" by simp_all
      moreover from True cs have "cs = p" by simp
      ultimately show ?thesis using Cons dash pne by simp
    next
      case False
      with v ip have i8: "identifiers (tl q)" and m: "m5 = p" "m8 = tl q"
        by (simp_all split: if_splits)
      from i8 have qne: "tl q \<noteq> []" by (rule identifiers_nonempty)
      from False hq have "CHR ''+'' # tl q = q" by (cases q) simp_all
      then have "p @ CHR ''+'' # tl q = cs" using cs by simp
      then show ?thesis using Cons dash m pne qne by simp
    qed
  next
    case plus
    with a Cons have "(if identifiers cs then Some ([], cs) else None) = Some (m5, m8)"
      by (simp only: versionTail_plus)
    then have "identifiers cs" "m5 = []" "m8 = cs" by (simp_all split: if_splits)
    with Cons plus identifiers_nonempty [of cs] show ?thesis by simp
  next
    case other
    with a Cons show ?thesis by (simp add: versionTail_other)
  qed
qed

lemma buildOK_identifiers: "buildOK m = identifiers m"
  by (simp add: buildOK_def identifiers_def)

lemma isDigit_allowed: "isDigit c \<Longrightarrow> allowed c"
  by (simp add: allowed_def)

lemma prereleaseOK_parts:
  "list_all (\<lambda>i. i \<noteq> [] \<and> list_all allowed i \<and>
                   \<not> (list_all isDigit i \<and> length i > 1 \<and> hd i = CHR ''0'')) ps =
   (list_all (\<lambda>p. p \<noteq> [] \<and> list_all allowed p) ps \<and> validatePrerelease_parts ps)"
  by (induction ps) (auto simp: containsOnly_def list_all_iff isDigit_allowed)

lemma prereleaseOK_iff: "prereleaseOK p = (identifiers p \<and> validatePrerelease p)"
  by (simp only: prereleaseOK_def identifiers_def validatePrerelease_def prereleaseOK_parts)

lemma validateMetadata_parts_allowed:
  "list_all (\<lambda>p. p \<noteq> [] \<and> list_all allowed p) ps \<Longrightarrow> validateMetadata_parts ps"
  by (induction ps) (auto simp: containsOnly_def)

lemma identifiers_validateMetadata: "identifiers m \<Longrightarrow> validateMetadata m"
  by (simp add: identifiers_def validateMetadata_def validateMetadata_parts_allowed)

lemma Split_chars:
  "x \<in> set s \<Longrightarrow> x = sep \<or> (\<exists>part \<in> set (Split s sep). x \<in> set part)"
proof (induction s)
  case Nil
  then show ?case by simp
next
  case (Cons c cs)
  show ?case
  proof (cases "c = sep")
    case True
    with Cons show ?thesis by auto
  next
    case False
    obtain t ts where sp: "Split cs sep = t # ts"
      by (cases "Split cs sep") (auto, cases cs, auto split: if_splits list.splits)
    show ?thesis
    proof (cases "x = c")
      case True
      with False sp show ?thesis by auto
    next
      case neq: False
      with Cons.prems have "x \<in> set cs" by auto
      from Cons.IH [OF this] False sp show ?thesis by auto
    qed
  qed
qed

lemma not_allowed_plus: "\<not> allowed (CHR ''+'')"
  by (simp add: allowed_def isLower_def isUpper_def isDigit_def)

lemma identifiers_no_plus: "identifiers p \<Longrightarrow> CHR ''+'' \<notin> set p"
proof
  assume i: "identifiers p" and m: "CHR ''+'' \<in> set p"
  from Split_chars [OF m, of "CHR ''.''"] obtain part where
    "part \<in> set (Split p (CHR ''.''))" "CHR ''+'' \<in> set part" by auto
  with i have "allowed (CHR ''+'')" by (auto simp: identifiers_def list_all_iff)
  with not_allowed_plus show False by simp
qed

lemma takeWhile_digits:
  "list_all isDigit d \<Longrightarrow> r = [] \<or> \<not> isDigit (hd r) \<Longrightarrow>
     takeWhile isDigit (d @ r) = d \<and> dropWhile isDigit (d @ r) = r"
proof (induction d)
  case Nil
  then show ?case by (cases r) auto
next
  case (Cons c cs)
  then show ?case by simp
qed

lemma dotDigits_compose:
  "d \<noteq> [] \<Longrightarrow> list_all isDigit d \<Longrightarrow> r = [] \<or> \<not> isDigit (hd r) \<Longrightarrow>
     dotDigits (CHR ''.'' # d @ r) = (CHR ''.'' # d, r)"
  using takeWhile_digits [of d r] by (simp add: dotDigits_def)

lemma dotDigits_none: "r = [] \<or> hd r \<noteq> CHR ''.'' \<Longrightarrow> dotDigits r = ([], r)"
  by (cases r) (auto simp: dotDigits_def)

lemma suffixes_head:
  "suffixes p m = [] \<or> (\<not> isDigit (hd (suffixes p m)) \<and> hd (suffixes p m) \<noteq> CHR ''.'')"
  by (simp add: suffixes_def isDigit_def)

lemma versionTail_suffixes:
  assumes "p = [] \<or> identifiers p" and "m = [] \<or> identifiers m"
  shows "versionTail (suffixes p m) = Some (p, m)"
proof (cases "p = []")
  case True
  with assms(2) show ?thesis
    by (cases "m = []") (simp_all add: suffixes_def versionTail_def)
next
  case False
  with assms(1) have ip: "identifiers p" by simp
  then have np: "CHR ''+'' \<notin> set p" by (rule identifiers_no_plus)
  then have all: "\<forall>x \<in> set p. x \<noteq> CHR ''+''" by auto
  show ?thesis
  proof (cases "m = []")
    case True
    from all have tw: "takeWhile (\<lambda>x. x \<noteq> CHR ''+'') p = p"
      and dw: "dropWhile (\<lambda>x. x \<noteq> CHR ''+'') p = []"
      by simp_all
    from False True ip show ?thesis by (simp add: suffixes_def versionTail_dash tw dw)
  next
    case m: False
    from all have tw: "takeWhile (\<lambda>x. x \<noteq> CHR ''+'') (p @ CHR ''+'' # m) = p"
      and dw: "dropWhile (\<lambda>x. x \<noteq> CHR ''+'') (p @ CHR ''+'' # m) = CHR ''+'' # m"
      by (simp_all add: takeWhile_append2 dropWhile_append2)
    from False m ip assms(2) show ?thesis by (simp add: suffixes_def versionTail_dash tw dw)
  qed
qed

lemma versionRegex_body:
  "versionRegex s =
     (let b = TrimPrefix s ''v'';
          m1 = takeWhile isDigit b;
          (m2, r2) = dotDigits (dropWhile isDigit b);
          (m3, r3) = dotDigits r2
      in if m1 = [] then None
         else (case versionTail r3 of
                 None \<Rightarrow> None
               | Some (m5, m8) \<Rightarrow> Some (m1, m2, m3, m5, m8)))"
proof -
  have "(case s of [] \<Rightarrow> [] | c # cs \<Rightarrow> if c = CHR ''v'' then cs else s) = TrimPrefix s ''v''"
    by (cases s) (auto simp: TrimPrefix_def)
  then show ?thesis by (simp add: versionRegex_def)
qed

lemma versionRegex_compose:
  assumes body: "TrimPrefix s ''v'' = d1 @ dotted d2 @ dotted d3 @ suffixes p m"
    and d1: "d1 \<noteq> []" "list_all isDigit d1"
    and d2: "list_all isDigit d2" and d3: "list_all isDigit d3"
    and ord: "d3 = [] \<or> d2 \<noteq> []"
    and p: "p = [] \<or> identifiers p" and m: "m = [] \<or> identifiers m"
  shows "versionRegex s = Some (d1, dotted d2, dotted d3, p, m)"
proof -
  let ?t = "suffixes p m"
  have t: "?t = [] \<or> \<not> isDigit (hd ?t)" and tdot: "?t = [] \<or> hd ?t \<noteq> CHR ''.''"
    using suffixes_head [of p m] by auto
  have vt: "versionTail ?t = Some (p, m)" using versionTail_suffixes [OF p m] .
  have r3: "dotDigits (dotted d3 @ ?t) = (dotted d3, ?t)"
  proof (cases "d3 = []")
    case True
    then show ?thesis using dotDigits_none [OF tdot] by (simp add: dotted_def)
  next
    case False
    then show ?thesis using dotDigits_compose [OF False d3 t] by (simp add: dotted_def)
  qed
  have nd3: "dotted d3 @ ?t = [] \<or> \<not> isDigit (hd (dotted d3 @ ?t))"
    using t by (auto simp: dotted_def isDigit_def)
  have r2: "dotDigits (dotted d2 @ dotted d3 @ ?t) = (dotted d2, dotted d3 @ ?t)"
  proof (cases "d2 = []")
    case True
    with ord have "d3 = []" by simp
    with True show ?thesis using dotDigits_none [OF tdot] by (simp add: dotted_def)
  next
    case False
    then show ?thesis using dotDigits_compose [OF False d2 nd3] by (simp add: dotted_def)
  qed
  have nd2: "dotted d2 @ dotted d3 @ ?t = [] \<or> \<not> isDigit (hd (dotted d2 @ dotted d3 @ ?t))"
    using t by (auto simp: dotted_def isDigit_def)
  have tw: "takeWhile isDigit (d1 @ dotted d2 @ dotted d3 @ ?t) = d1"
    "dropWhile isDigit (d1 @ dotted d2 @ dotted d3 @ ?t) = dotted d2 @ dotted d3 @ ?t"
    using takeWhile_digits [OF d1(2) nd2] by simp_all
  show ?thesis
    by (simp only: versionRegex_body body Let_def tw r2 r3 vt d1 split_conv if_False option.case)
qed

lemma numeral64_decimal64: "numeral64 d \<Longrightarrow> decimal64 d"
  by (simp add: numeral64_def decimal64_def canonical_def)

lemma ParseUint_decimal64: "decimal64 d \<Longrightarrow> ParseUint d = Some (of_nat (digitsVal 0 d))"
  by (simp add: decimal64_def ParseUint_def)

lemma ParseUint_Some_decimal64:
  "ParseUint d = Some a \<Longrightarrow> decimal64 d \<and> a = of_nat (digitsVal 0 d)"
  by (auto simp: decimal64_def ParseUint_def split: if_splits)

lemma TrimPrefix_dotted: "d \<noteq> [] \<Longrightarrow> TrimPrefix (dotted d) ''.'' = d"
  by (simp add: dotted_def TrimPrefix_def)

lemma dotted_empty: "(dotted d = []) = (d = [])"
  by (simp add: dotted_def)

lemma NewVersion_compose:
  assumes body: "TrimPrefix s ''v'' = d1 @ dotted d2 @ dotted d3 @ suffixes p m"
    and d1: "decimal64 d1" and d2: "d2 = [] \<or> decimal64 d2" and d3: "d3 = [] \<or> decimal64 d3"
    and ord: "d3 = [] \<or> d2 \<noteq> []"
    and p: "p = [] \<or> prereleaseOK p" and m: "m = [] \<or> buildOK m"
  shows "NewVersion s =
           Some \<lparr>major = of_nat (digitsVal 0 d1), minor = of_nat (digitsVal 0 d2),
                 patch = of_nat (digitsVal 0 d3), pre = p, metadata = m, original = s\<rparr>"
proof -
  have g: "versionRegex s = Some (d1, dotted d2, dotted d3, p, m)"
  proof (rule versionRegex_compose [OF body])
    show "d1 \<noteq> []" "list_all isDigit d1" using d1 by (simp_all add: decimal64_def)
    show "list_all isDigit d2" using d2 by (auto simp: decimal64_def)
    show "list_all isDigit d3" using d3 by (auto simp: decimal64_def)
    show "d3 = [] \<or> d2 \<noteq> []" by (rule ord)
    show "p = [] \<or> identifiers p" using p by (auto simp: prereleaseOK_iff)
    show "m = [] \<or> identifiers m" using m by (auto simp: buildOK_identifiers)
  qed
  have p1: "ParseUint d1 = Some (of_nat (digitsVal 0 d1))"
    using d1 by (rule ParseUint_decimal64)
  have p2: "(if dotted d2 \<noteq> [] then ParseUint (TrimPrefix (dotted d2) ''.'') else Some 0) =
      Some (of_nat (digitsVal 0 d2))"
    using d2 by (cases "d2 = []") (auto simp: dotted_empty TrimPrefix_dotted ParseUint_decimal64)
  have p3: "(if dotted d3 \<noteq> [] then ParseUint (TrimPrefix (dotted d3) ''.'') else Some 0) =
      Some (of_nat (digitsVal 0 d3))"
    using d3 by (cases "d3 = []") (auto simp: dotted_empty TrimPrefix_dotted ParseUint_decimal64)
  have vp: "\<not> (p \<noteq> [] \<and> \<not> validatePrerelease p)"
    using p by (auto simp: prereleaseOK_iff)
  have vm: "\<not> (m \<noteq> [] \<and> \<not> validateMetadata m)"
    using m by (auto simp: buildOK_identifiers identifiers_validateMetadata)
  show ?thesis
    by (simp only: NewVersion_def g option.case split_conv p1 p2 p3 vp vm if_False)
qed

lemma dotDigits_decompose:
  "dotDigits r = (m, r') \<Longrightarrow>
     r = m @ r' \<and> (\<exists>d. m = dotted d \<and> list_all isDigit d \<and> (d = [] \<longrightarrow> r' = r))"
proof -
  assume a: "dotDigits r = (m, r')"
  show ?thesis
  proof (cases "m = []")
    case True
    with a have "r' = r" by (auto simp: dotDigits_def split: list.splits if_splits)
    with True show ?thesis by (auto simp: dotted_def intro: exI [of _ "[]"])
  next
    case False
    with a obtain cs where r: "r = CHR ''.'' # cs" and m: "m = CHR ''.'' # takeWhile isDigit cs"
      and r': "r' = dropWhile isDigit cs" and ne: "takeWhile isDigit cs \<noteq> []"
      by (auto simp: dotDigits_def split: list.splits if_splits)
    have "list_all isDigit (takeWhile isDigit cs)"
      by (simp add: list_all_iff) (meson set_takeWhileD)
    with r m r' ne show ?thesis
      by (intro conjI exI [of _ "takeWhile isDigit cs"]) (simp_all add: dotted_def)
  qed
qed

lemma versionTail_meta: "versionTail r = Some (m5, m8) \<Longrightarrow> m8 = [] \<or> identifiers m8"
  by (cases r) (auto simp: versionTail_def Let_def split: if_splits)

lemma versionTail_suffixes_shape: "versionTail r = Some (m5, m8) \<Longrightarrow> r = suffixes m5 m8"
  using versionTail_shape [of r m5 m8] by (simp add: suffixes_def)

lemma versionRegex_decompose:
  assumes "versionRegex s = Some (m1, m2, m3, m5, m8)"
  shows "\<exists>d2 d3. m2 = dotted d2 \<and> m3 = dotted d3 \<and>
           TrimPrefix s ''v'' = m1 @ dotted d2 @ dotted d3 @ suffixes m5 m8 \<and>
           m1 \<noteq> [] \<and> list_all isDigit m1 \<and> list_all isDigit d2 \<and> list_all isDigit d3 \<and>
           (d3 = [] \<or> d2 \<noteq> []) \<and> (m5 = [] \<or> identifiers m5) \<and> (m8 = [] \<or> identifiers m8)"
proof -
  let ?b = "TrimPrefix s ''v''"
  obtain a2 r2 where e2: "dotDigits (dropWhile isDigit ?b) = (a2, r2)" by force
  obtain a3 r3 where e3: "dotDigits r2 = (a3, r3)" by force
  from assms e2 e3 have m: "m1 = takeWhile isDigit ?b" "m2 = a2" "m3 = a3" "m1 \<noteq> []"
    and vt: "versionTail r3 = Some (m5, m8)"
    by (auto simp: versionRegex_body Let_def split: if_splits option.splits)
  from dotDigits_decompose [OF e2] obtain d2 where
    s2: "dropWhile isDigit ?b = a2 @ r2" and d2: "a2 = dotted d2" "list_all isDigit d2"
    and k2: "d2 = [] \<longrightarrow> r2 = dropWhile isDigit ?b" by blast
  from dotDigits_decompose [OF e3] obtain d3 where
    s3: "r2 = a3 @ r3" and d3: "a3 = dotted d3" "list_all isDigit d3" by blast
  have ord: "d3 = [] \<or> d2 \<noteq> []"
  proof (cases "d2 = []")
    case True
    with d2 have "a2 = []" by (simp add: dotted_def)
    with e2 True k2 have "dotDigits r2 = ([], r2)" by simp
    with e3 have "a3 = []" by simp
    with d3 have "dotted d3 = []" by simp
    then show ?thesis by (simp add: dotted_empty)
  next
    case False
    then show ?thesis by simp
  qed
  have "?b = takeWhile isDigit ?b @ dropWhile isDigit ?b" by simp
  also have "dropWhile isDigit ?b = a2 @ r2" by (rule s2)
  also have "r2 = a3 @ r3" by (rule s3)
  also have "r3 = suffixes m5 m8" using vt by (rule versionTail_suffixes_shape)
  finally have b: "?b = m1 @ dotted d2 @ dotted d3 @ suffixes m5 m8"
    using m d2 d3 by simp
  have dg: "list_all isDigit m1"
    unfolding m(1) by (simp add: list_all_iff) (meson set_takeWhileD)
  from versionTail_identifiers [OF vt] versionTail_meta [OF vt] b dg m d2 d3 ord
  show ?thesis by blast
qed

lemma NewVersion_decompose:
  assumes "NewVersion s = Some v"
  shows "\<exists>d1 d2 d3 p m.
           TrimPrefix s ''v'' = d1 @ dotted d2 @ dotted d3 @ suffixes p m \<and>
           decimal64 d1 \<and> (d2 = [] \<or> decimal64 d2) \<and> (d3 = [] \<or> decimal64 d3) \<and>
           (d3 = [] \<or> d2 \<noteq> []) \<and> (p = [] \<or> prereleaseOK p) \<and> (m = [] \<or> buildOK m)"
proof -
  from assms obtain m1 m2 m3 m5 m8 where r: "versionRegex s = Some (m1, m2, m3, m5, m8)"
    by (cases "versionRegex s") (auto simp: NewVersion_def)
  from versionRegex_decompose [OF r] obtain d2 d3 where
    g: "m2 = dotted d2" "m3 = dotted d3"
    and b: "TrimPrefix s ''v'' = m1 @ dotted d2 @ dotted d3 @ suffixes m5 m8"
    and ord: "d3 = [] \<or> d2 \<noteq> []"
    and i5: "m5 = [] \<or> identifiers m5" and i8: "m8 = [] \<or> identifiers m8"
    by blast
  from assms r obtain mj where p1: "ParseUint m1 = Some mj"
    by (cases "ParseUint m1") (auto simp: NewVersion_def)
  from assms r p1 obtain mi where
    p2: "(if m2 \<noteq> [] then ParseUint (TrimPrefix m2 ''.'') else Some 0) = Some mi"
    by (cases "if m2 \<noteq> [] then ParseUint (TrimPrefix m2 ''.'') else Some 0")
       (auto simp: NewVersion_def)
  from assms r p1 p2 obtain pa where
    p3: "(if m3 \<noteq> [] then ParseUint (TrimPrefix m3 ''.'') else Some 0) = Some pa"
    by (cases "if m3 \<noteq> [] then ParseUint (TrimPrefix m3 ''.'') else Some 0")
       (auto simp: NewVersion_def)
  from assms r p1 p2 p3 have val: "m5 = [] \<or> validatePrerelease m5"
    by (auto simp: NewVersion_def split: if_splits)
  have c1: "decimal64 m1" using ParseUint_Some_decimal64 [OF p1] by simp
  have c2: "d2 = [] \<or> decimal64 d2"
  proof (cases "d2 = []")
    case False
    with p2 g have "ParseUint d2 = Some mi" by (simp add: dotted_empty TrimPrefix_dotted)
    then show ?thesis using ParseUint_Some_decimal64 by blast
  qed simp
  have c3: "d3 = [] \<or> decimal64 d3"
  proof (cases "d3 = []")
    case False
    with p3 g have "ParseUint d3 = Some pa" by (simp add: dotted_empty TrimPrefix_dotted)
    then show ?thesis using ParseUint_Some_decimal64 by blast
  qed simp
  have c5: "m5 = [] \<or> prereleaseOK m5" using i5 val by (auto simp: prereleaseOK_iff)
  have c8: "m8 = [] \<or> buildOK m8" using i8 by (simp add: buildOK_identifiers)
  from b c1 c2 c3 ord c5 c8 show ?thesis by blast
qed

lemma NewVersion_accepts_iff:
  "(NewVersion s \<noteq> None) =
     (\<exists>d1 d2 d3 p m.
        TrimPrefix s ''v'' = d1 @ dotted d2 @ dotted d3 @ suffixes p m \<and>
        decimal64 d1 \<and> (d2 = [] \<or> decimal64 d2) \<and> (d3 = [] \<or> decimal64 d3) \<and>
        (d3 = [] \<or> d2 \<noteq> []) \<and> (p = [] \<or> prereleaseOK p) \<and> (m = [] \<or> buildOK m))"
proof
  assume "NewVersion s \<noteq> None"
  then obtain v where "NewVersion s = Some v" by auto
  then show "\<exists>d1 d2 d3 p m.
        TrimPrefix s ''v'' = d1 @ dotted d2 @ dotted d3 @ suffixes p m \<and>
        decimal64 d1 \<and> (d2 = [] \<or> decimal64 d2) \<and> (d3 = [] \<or> decimal64 d3) \<and>
        (d3 = [] \<or> d2 \<noteq> []) \<and> (p = [] \<or> prereleaseOK p) \<and> (m = [] \<or> buildOK m)"
    by (rule NewVersion_decompose)
next
  assume "\<exists>d1 d2 d3 p m.
        TrimPrefix s ''v'' = d1 @ dotted d2 @ dotted d3 @ suffixes p m \<and>
        decimal64 d1 \<and> (d2 = [] \<or> decimal64 d2) \<and> (d3 = [] \<or> decimal64 d3) \<and>
        (d3 = [] \<or> d2 \<noteq> []) \<and> (p = [] \<or> prereleaseOK p) \<and> (m = [] \<or> buildOK m)"
  then obtain d1 d2 d3 p m where
    "TrimPrefix s ''v'' = d1 @ dotted d2 @ dotted d3 @ suffixes p m"
    "decimal64 d1" "d2 = [] \<or> decimal64 d2" "d3 = [] \<or> decimal64 d3"
    "d3 = [] \<or> d2 \<noteq> []" "p = [] \<or> prereleaseOK p" "m = [] \<or> buildOK m" by blast
  from NewVersion_compose [OF this] show "NewVersion s \<noteq> None" by simp
qed


section \<open>The precedence of the library and the precedence of SemVer\<close>

text \<open>
  On parsed versions whose numeric pre-release identifiers all fit 64 bits, \<open>Compare\<close>
  is the precedence of SemVer 2.0. A numeric identifier that does not fit is one that
  \<open>ParseUint\<close> refuses, and \<open>Compare\<close> then takes it for text.
\<close>

lemma ParseUint_inRange:
  "identInRange s \<Longrightarrow> (ParseUint s = None) = (\<not> digitRun s)"
  by (auto simp: identInRange_def digitRun_def ParseUint_def)

lemma comparePrePart_semver:
  assumes "wfPart s" and "wfPart t" and "identInRange s" and "identInRange t"
  shows "comparePrePart s t = semver_compareIdent s t"
proof (cases "s = t")
  case True
  then show ?thesis by (simp add: comparePrePart_def semver_compareIdent_def strLess_irrefl)
next
  case False
  from assms have ne: "s \<noteq> []" "t \<noteq> []" by (simp_all add: wfPart_def)
  show ?thesis
  proof (cases "ParseUint s")
    case None
    note ps = this
    then have ns: "\<not> digitRun s" using ParseUint_inRange [OF assms(3)] by simp
    show ?thesis
    proof (cases "ParseUint t")
      case None
      then have nt: "\<not> digitRun t" using ParseUint_inRange [OF assms(4)] by simp
      from ps None False ne ns nt show ?thesis
        using strLess_total [of s t] strLess_asym [of s t]
        by (auto simp: comparePrePart_def semver_compareIdent_def)
    next
      case (Some b)
      then have dt: "digitRun t" using ParseUint_inRange [OF assms(4)] by auto
      from ps Some False ne ns dt show ?thesis
        by (simp add: comparePrePart_def semver_compareIdent_def)
    qed
  next
    case (Some a)
    note ps = this
    then have ds: "digitRun s" using ParseUint_inRange [OF assms(3)] by auto
    show ?thesis
    proof (cases "ParseUint t")
      case None
      then have nt: "\<not> digitRun t" using ParseUint_inRange [OF assms(4)] by simp
      from ps None False ne ds nt show ?thesis
        by (simp add: comparePrePart_def semver_compareIdent_def)
    next
      case (Some b)
      then have dt: "digitRun t" using ParseUint_inRange [OF assms(4)] by auto
      have ua: "unat a = digitsVal 0 s" using ParseUint_Some [OF ps] by simp
      have ub: "unat b = digitsVal 0 t" using ParseUint_Some [OF Some] by simp
      have "unat a \<noteq> unat b"
        using wfPart_ParseUint_inj [OF assms(1,2) ps Some] False by blast
      with ps Some False ne ds dt ua ub show ?thesis
        by (auto simp: comparePrePart_def semver_compareIdent_def word_less_nat_alt)
    qed
  qed
qed

lemma comparePrerelease_parts_semver:
  "list_all wfPart xs \<Longrightarrow> list_all wfPart ys \<Longrightarrow>
   list_all identInRange xs \<Longrightarrow> list_all identInRange ys \<Longrightarrow>
     comparePrerelease_parts xs ys = semver_compareIdents xs ys"
proof (induction xs ys rule: semver_compareIdents.induct)
  case 1
  show ?case by simp
next
  case (2 t ts)
  then show ?case using parts_Nil_left [of "t # ts"] by (simp del: comparePrerelease_parts.simps)
next
  case (3 s ss)
  then show ?case using parts_Nil_right [of "s # ss"] by (simp del: comparePrerelease_parts.simps)
next
  case (4 s ss t ts)
  then have e: "comparePrePart s t = semver_compareIdent s t"
    using comparePrePart_semver [of s t] by simp
  show ?case
  proof (cases "semver_compareIdent s t = 0")
    case True
    with 4 e show ?thesis by (simp add: parts_Cons)
  next
    case False
    with e show ?thesis by (simp add: parts_Cons)
  qed
qed

lemma Compare_semver:
  assumes "wfVersion v" and "wfVersion w" and "identifiersInRange v" and "identifiersInRange w"
  shows "Compare v w = semver_precedence v w"
proof -
  have pre: "comparePre (pre v) (pre w) =
      (if pre v = [] \<and> pre w = [] then 0
       else if pre v = [] then 1
       else if pre w = [] then -1
       else semver_compareIdents (Split (pre v) (CHR ''.'')) (Split (pre w) (CHR ''.'')))"
    using assms comparePrerelease_parts_semver [of "Split (pre v) (CHR ''.'')" "Split (pre w) (CHR ''.'')"]
    by (auto simp: comparePre_def comparePrerelease_def wfVersion_def identifiersInRange_def)
  show ?thesis
    by (simp only: Compare_lex semver_precedence_def pre word_less_nat_alt word_unat_eq_iff)
qed


section \<open>The sort and the selection\<close>

lemma set_insertionSort_step: "set (insertionSort_step lt x rs) = insert x (set rs)"
  by (induction rs) auto

lemma sorted_insertionSort_step:
  assumes asym: "\<forall>a \<in> D. \<forall>b \<in> D. lt a b \<longrightarrow> \<not> lt b a"
    and ntrans: "\<forall>a \<in> D. \<forall>b \<in> D. \<forall>c \<in> D. \<not> lt a b \<longrightarrow> \<not> lt b c \<longrightarrow> \<not> lt a c"
  shows "x \<in> D \<Longrightarrow> set rs \<subseteq> D \<Longrightarrow> sorted_wrt (\<lambda>a b. \<not> lt a b) rs \<Longrightarrow>
         sorted_wrt (\<lambda>a b. \<not> lt a b) (insertionSort_step lt x rs)"
proof (induction rs)
  case Nil
  then show ?case by simp
next
  case (Cons y rs)
  from Cons.prems have yD: "y \<in> D" and rsD: "set rs \<subseteq> D"
    and yrs: "\<forall>z \<in> set rs. \<not> lt y z" and srs: "sorted_wrt (\<lambda>a b. \<not> lt a b) rs"
    by simp_all
  show ?case
  proof (cases "lt x y")
    case True
    have yx: "\<not> lt y x" using asym True Cons.prems(1) yD by blast
    have ih: "sorted_wrt (\<lambda>a b. \<not> lt a b) (insertionSort_step lt x rs)"
      using Cons.IH [OF Cons.prems(1) rsD srs] .
    from True yx yrs ih show ?thesis
      by (simp add: set_insertionSort_step)
  next
    case False
    have "\<not> lt x z" if "z \<in> set rs" for z
    proof -
      from that rsD have zD: "z \<in> D" by blast
      from that yrs have "\<not> lt y z" by blast
      with ntrans Cons.prems(1) yD zD False show ?thesis by blast
    qed
    with False yrs srs show ?thesis by simp
  qed
qed

lemma foldl_insertionSort_step:
  assumes asym: "\<forall>a \<in> D. \<forall>b \<in> D. lt a b \<longrightarrow> \<not> lt b a"
    and ntrans: "\<forall>a \<in> D. \<forall>b \<in> D. \<forall>c \<in> D. \<not> lt a b \<longrightarrow> \<not> lt b c \<longrightarrow> \<not> lt a c"
  shows "set acc \<subseteq> D \<Longrightarrow> set xs \<subseteq> D \<Longrightarrow> sorted_wrt (\<lambda>a b. \<not> lt a b) acc \<Longrightarrow>
         set (foldl (\<lambda>rs x. insertionSort_step lt x rs) acc xs) = set acc \<union> set xs \<and>
         sorted_wrt (\<lambda>a b. \<not> lt a b) (foldl (\<lambda>rs x. insertionSort_step lt x rs) acc xs)"
proof (induction xs arbitrary: acc)
  case Nil
  then show ?case by simp
next
  case (Cons x xs)
  from Cons.prems have xD: "x \<in> D" and xsD: "set xs \<subseteq> D" by simp_all
  have s: "sorted_wrt (\<lambda>a b. \<not> lt a b) (insertionSort_step lt x acc)"
    using sorted_insertionSort_step [OF asym ntrans xD Cons.prems(1) Cons.prems(3)] .
  have d: "set (insertionSort_step lt x acc) \<subseteq> D"
    using Cons.prems(1) xD by (simp add: set_insertionSort_step)
  from Cons.IH [OF d xsD s] show ?case
    by (simp add: set_insertionSort_step Un_commute insert_commute)
qed

lemma last_sort_Sort:
  assumes asym: "\<forall>a \<in> set xs. \<forall>b \<in> set xs. lt a b \<longrightarrow> \<not> lt b a"
    and ntrans: "\<forall>a \<in> set xs. \<forall>b \<in> set xs. \<forall>c \<in> set xs.
                   \<not> lt a b \<longrightarrow> \<not> lt b c \<longrightarrow> \<not> lt a c"
    and ne: "xs \<noteq> []"
  shows "last (sort_Sort lt xs) \<in> set xs \<and> (\<forall>v \<in> set xs. \<not> lt (last (sort_Sort lt xs)) v)"
proof -
  let ?rs = "foldl (\<lambda>rs x. insertionSort_step lt x rs) [] xs"
  have f: "set ?rs = set xs \<and> sorted_wrt (\<lambda>a b. \<not> lt a b) ?rs"
    using foldl_insertionSort_step [of "set xs" lt "[]" xs, OF asym ntrans] by simp
  with ne have rne: "?rs \<noteq> []" by auto
  then obtain m rest where m: "?rs = m # rest" by (cases ?rs) auto
  have l: "last (sort_Sort lt xs) = m"
    by (simp add: sort_Sort_def m)
  have "m \<in> set xs" using f m by auto
  moreover have "\<not> lt m v" if "v \<in> set xs" for v
  proof (cases "v = m")
    case True
    with asym \<open>m \<in> set xs\<close> show ?thesis by blast
  next
    case False
    with that f m show ?thesis by auto
  qed
  ultimately show ?thesis using l by simp
qed

lemma latestOf_maximum:
  assumes wf: "\<forall>v \<in> set tags. wfVersion v" and ne: "tags \<noteq> []"
  shows "\<exists>m. latestOf tags = Some m \<and> m \<in> set tags \<and> (\<forall>v \<in> set tags. Compare v m \<le> 0)"
proof -
  have asym1: "\<not> Less b a" if "a \<in> set tags" "b \<in> set tags" "Less a b" for a b
    using Compare_antisym [of a b] wf that by (auto simp: Less_def)
  have ntrans1: "\<not> Less a c"
    if "a \<in> set tags" "b \<in> set tags" "c \<in> set tags" "\<not> Less a b" "\<not> Less b c" for a b c
  proof -
    from that wf have "Compare b a \<le> 0" "Compare c b \<le> 0"
      using Compare_antisym [of a b] Compare_antisym [of b c] by (auto simp: Less_def)
    then have "Compare c a \<le> 0"
      using Compare_trans [of c b a] that wf by auto
    then show ?thesis
      using Compare_antisym [of a c] that wf by (auto simp: Less_def)
  qed
  have asym: "\<forall>a \<in> set tags. \<forall>b \<in> set tags. Less a b \<longrightarrow> \<not> Less b a"
    using asym1 by blast
  have ntrans: "\<forall>a \<in> set tags. \<forall>b \<in> set tags. \<forall>c \<in> set tags.
                   \<not> Less a b \<longrightarrow> \<not> Less b c \<longrightarrow> \<not> Less a c"
    using ntrans1 by blast
  let ?m = "last (sort_Sort Less tags)"
  from last_sort_Sort [of tags Less, OF asym ntrans ne]
  have m: "?m \<in> set tags" and mx: "\<forall>v \<in> set tags. \<not> Less ?m v" by auto
  have "Compare v ?m \<le> 0" if "v \<in> set tags" for v
    using mx that m wf Compare_antisym [of v ?m] by (auto simp: Less_def)
  with m ne show ?thesis by (auto simp: latestOf_def)
qed

lemma parseTags_map_filter:
  "parseTags refs = List.map_filter (\<lambda>r. NewVersion (TrimPrefix r ''refs/tags/'')) refs"
  by (induction refs) (auto split: option.splits)

lemma parseTags_filter:
  "parseTags (filter (\<lambda>r. NewVersion (TrimPrefix r ''refs/tags/'') \<noteq> None) refs) = parseTags refs"
  by (induction refs) (auto split: option.splits)

text \<open>
  C1, as the code has it. When the listing of a repository's tag references succeeds,
  \<open>fetchLatestTag\<close> returns no version if none of the names parses, and otherwise a
  version \<open>m\<close> that one of the names parses to and that is a maximum for the precedence
  of the library: \<open>Compare v m \<le> 0\<close> for every version \<open>v\<close> that a name parses
  to. \<open>Compare\<close> orders by the major, minor and patch numbers as numbers, then by the
  pre-release; build metadata does not take part. When every numeric pre-release
  identifier of the parsed versions has a value below \<open>2\<^sup>6\<^sup>4\<close>, \<open>m\<close> is also a
  maximum for the precedence of SemVer 2.0. In particular the tags \<open>v1.2.0\<close>,
  \<open>v1.10.0\<close> and \<open>v1.9.0\<close> select \<open>1.10.0\<close>.
\<close>

theorem fetchLatestTag_maximum:
  assumes "Git_ListMatchingRefs c org name ''tags/'' = Inr refs"
  shows "(if \<forall>r \<in> set refs. NewVersion (TrimPrefix r ''refs/tags/'') = None
          then snd (fetchLatestTag c org name) = Inr None
          else \<exists>m. snd (fetchLatestTag c org name) = Inr (Some m) \<and>
                 (\<exists>r \<in> set refs. NewVersion (TrimPrefix r ''refs/tags/'') = Some m) \<and>
                 (\<forall>r \<in> set refs. \<forall>v. NewVersion (TrimPrefix r ''refs/tags/'') = Some v \<longrightarrow>
                    Compare v m \<le> 0) \<and>
                 ((\<forall>r \<in> set refs. \<forall>v. NewVersion (TrimPrefix r ''refs/tags/'') = Some v \<longrightarrow>
                     identifiersInRange v) \<longrightarrow>
                  (\<forall>r \<in> set refs. \<forall>v. NewVersion (TrimPrefix r ''refs/tags/'') = Some v \<longrightarrow>
                     semver_precedence v m \<le> 0))) \<and>
         latestOf (parseTags [''refs/tags/v1.2.0'', ''refs/tags/v1.10.0'', ''refs/tags/v1.9.0'']) =
           Some \<lparr>major = 1, minor = 10, patch = 0, pre = [], metadata = [],
                 original = ''v1.10.0''\<rparr>"
proof
  have res: "snd (fetchLatestTag c org name) = Inr (latestOf (parseTags refs))"
    using assms by (simp add: fetchLatestTag_def)
  show "if \<forall>r \<in> set refs. NewVersion (TrimPrefix r ''refs/tags/'') = None
          then snd (fetchLatestTag c org name) = Inr None
          else \<exists>m. snd (fetchLatestTag c org name) = Inr (Some m) \<and>
                 (\<exists>r \<in> set refs. NewVersion (TrimPrefix r ''refs/tags/'') = Some m) \<and>
                 (\<forall>r \<in> set refs. \<forall>v. NewVersion (TrimPrefix r ''refs/tags/'') = Some v \<longrightarrow>
                    Compare v m \<le> 0) \<and>
                 ((\<forall>r \<in> set refs. \<forall>v. NewVersion (TrimPrefix r ''refs/tags/'') = Some v \<longrightarrow>
                     identifiersInRange v) \<longrightarrow>
                  (\<forall>r \<in> set refs. \<forall>v. NewVersion (TrimPrefix r ''refs/tags/'') = Some v \<longrightarrow>
                     semver_precedence v m \<le> 0))"
  proof (cases "\<forall>r \<in> set refs. NewVersion (TrimPrefix r ''refs/tags/'') = None")
    case True
    then have "set (parseTags refs) = {}" by (simp add: parseTags_set)
    then have "parseTags refs = []" by simp
    with True res show ?thesis by (simp add: latestOf_def)
  next
    case False
    then have "set (parseTags refs) \<noteq> {}" by (auto simp: parseTags_set)
    then have ne: "parseTags refs \<noteq> []" by auto
    have "\<forall>v \<in> set (parseTags refs). wfVersion v" using parseTags_wf by blast
    from latestOf_maximum [OF this ne]
    obtain m where m: "latestOf (parseTags refs) = Some m" "m \<in> set (parseTags refs)"
      "\<forall>v \<in> set (parseTags refs). Compare v m \<le> 0" by blast
    from m(2) have a: "\<exists>r \<in> set refs. NewVersion (TrimPrefix r ''refs/tags/'') = Some m"
      by (simp add: parseTags_set)
    from m(3) have b:
      "\<forall>r \<in> set refs. \<forall>v. NewVersion (TrimPrefix r ''refs/tags/'') = Some v \<longrightarrow> Compare v m \<le> 0"
      by (auto simp: parseTags_set)
    have c: "\<forall>r \<in> set refs. \<forall>v. NewVersion (TrimPrefix r ''refs/tags/'') = Some v \<longrightarrow>
                     semver_precedence v m \<le> 0"
      if rng: "\<forall>r \<in> set refs. \<forall>v. NewVersion (TrimPrefix r ''refs/tags/'') = Some v \<longrightarrow>
                     identifiersInRange v"
    proof (intro ballI allI impI)
      fix r v
      assume r: "r \<in> set refs" and v: "NewVersion (TrimPrefix r ''refs/tags/'') = Some v"
      from a obtain r' where r': "r' \<in> set refs" "NewVersion (TrimPrefix r' ''refs/tags/'') = Some m"
        by blast
      have "Compare v m = semver_precedence v m"
        using Compare_semver [of v m] NewVersion_wf [OF v] NewVersion_wf [OF r'(2)] rng r v r'
        by blast
      with b r v show "semver_precedence v m \<le> 0" by auto
    qed
    from a b c False res m(1) show ?thesis by auto
  qed
  show "latestOf (parseTags [''refs/tags/v1.2.0'', ''refs/tags/v1.10.0'', ''refs/tags/v1.9.0'']) =
           Some \<lparr>major = 1, minor = 10, patch = 0, pre = [], metadata = [],
                 original = ''v1.10.0''\<rparr>"
    by (simp add: program_eval semver_eval)
qed

text \<open>
  C1 on the repository \<open>A\<close> of the example: the later of its two tags is selected, and
  the earlier one does not come after it in the precedence of SemVer.
\<close>

theorem fetchLatestTag_maximum_witness:
  "snd (fetchLatestTag example_client ''org'' ''A'') =
     Inr (Some \<lparr>major = 1, minor = 1, patch = 0, pre = [], metadata = [],
                 original = ''v1.1.0''\<rparr>) \<and>
   semver_precedence
     \<lparr>major = 1, minor = 0, patch = 0, pre = [], metadata = [], original = ''v1.0.0''\<rparr>
     \<lparr>major = 1, minor = 1, patch = 0, pre = [], metadata = [], original = ''v1.1.0''\<rparr> \<le> 0"
proof -
  have l: "Git_ListMatchingRefs example_client ''org'' ''A'' ''tags/'' =
      Inr [''refs/tags/v1.0.0'', ''refs/tags/v1.1.0'']"
    by (simp add: example_client_def)
  have n: "NewVersion (TrimPrefix ''refs/tags/v1.0.0'' ''refs/tags/'') =
      Some \<lparr>major = 1, minor = 0, patch = 0, pre = [], metadata = [], original = ''v1.0.0''\<rparr>"
    "NewVersion (TrimPrefix ''refs/tags/v1.1.0'' ''refs/tags/'') =
      Some \<lparr>major = 1, minor = 1, patch = 0, pre = [], metadata = [], original = ''v1.1.0''\<rparr>"
    by (simp_all add: semver_eval)
  have run: "snd (fetchLatestTag example_client ''org'' ''A'') =
     Inr (Some \<lparr>major = 1, minor = 1, patch = 0, pre = [], metadata = [],
                 original = ''v1.1.0''\<rparr>)"
    by (simp add: program_eval semver_eval)
  have rng: "\<forall>r \<in> set [''refs/tags/v1.0.0'', ''refs/tags/v1.1.0''].
      \<forall>v. NewVersion (TrimPrefix r ''refs/tags/'') = Some v \<longrightarrow> identifiersInRange v"
    using n by (auto simp: precedence_eval)
  from fetchLatestTag_maximum [OF l, THEN conjunct1] n
  obtain m where m: "snd (fetchLatestTag example_client ''org'' ''A'') = Inr (Some m)"
    and mx: "(\<forall>r \<in> set [''refs/tags/v1.0.0'', ''refs/tags/v1.1.0''].
        \<forall>v. NewVersion (TrimPrefix r ''refs/tags/'') = Some v \<longrightarrow> identifiersInRange v) \<longrightarrow>
      (\<forall>r \<in> set [''refs/tags/v1.0.0'', ''refs/tags/v1.1.0''].
        \<forall>v. NewVersion (TrimPrefix r ''refs/tags/'') = Some v \<longrightarrow> semver_precedence v m \<le> 0)"
    by (auto split: if_splits)
  from m run have "m = \<lparr>major = 1, minor = 1, patch = 0, pre = [], metadata = [],
                 original = ''v1.1.0''\<rparr>" by simp
  with mx rng n(1) run show ?thesis by auto
qed

text \<open>
  C1 as the claim states it fails on numeric pre-release identifiers that do not fit 64
  bits, which the library compares as text: of the tags
  \<open>v1.0.0-99999999999999999999\<close> and \<open>v1.0.0-100000000000000000000\<close> the first is
  selected, and both parse, and in the precedence of SemVer the second is the higher
  one, its identifier being the larger number.
\<close>

theorem fetchLatestTag_precedence_counterexample:
  "snd (fetchLatestTag
          (example_client\<lparr>Git_ListMatchingRefs :=
             (\<lambda>org name ref. Inr [''refs/tags/v1.0.0-99999999999999999999'',
                                  ''refs/tags/v1.0.0-100000000000000000000''])\<rparr>)
          ''org'' ''A'') =
     Inr (Some \<lparr>major = 1, minor = 0, patch = 0, pre = ''99999999999999999999'', metadata = [],
                 original = ''v1.0.0-99999999999999999999''\<rparr>) \<and>
   NewVersion ''v1.0.0-100000000000000000000'' =
     Some \<lparr>major = 1, minor = 0, patch = 0, pre = ''100000000000000000000'', metadata = [],
           original = ''v1.0.0-100000000000000000000''\<rparr> \<and>
   semver_precedence
     \<lparr>major = 1, minor = 0, patch = 0, pre = ''100000000000000000000'', metadata = [],
       original = ''v1.0.0-100000000000000000000''\<rparr>
     \<lparr>major = 1, minor = 0, patch = 0, pre = ''99999999999999999999'', metadata = [],
       original = ''v1.0.0-99999999999999999999''\<rparr> = 1"
  by (simp add: precedence_eval program_eval semver_eval)

text \<open>
  C4, as the code has it. When the listing of a repository's tag references succeeds,
  \<open>fetchLatestTag\<close> returns a result and no error whatever the names are: the names
  that \<open>NewVersion\<close> rejects are dropped (the result is that of the list without
  them); when \<open>NewVersion\<close> rejects every name the result is no version; and
  \<open>bumpVersion\<close> of no version is \<open>bumpVersion\<close> of \<open>0.0.0\<close>. The strings that
  \<open>NewVersion\<close> accepts are exactly those that, after one optional leading \<open>v\<close>,
  are \<open>MAJOR\<close>, \<open>MAJOR.MINOR\<close> or \<open>MAJOR.MINOR.PATCH\<close>, each number a non-empty
  run of digits with a value below \<open>2\<^sup>6\<^sup>4\<close>, followed by an optional
  \<open>-PRERELEASE\<close> and an optional \<open>+BUILD\<close>, both dot-separated non-empty
  identifiers of letters, digits and hyphens, where no pre-release identifier is a run of
  two or more digits that starts with \<open>0\<close>.
\<close>

theorem unparsable_tags_discarded:
  assumes "Git_ListMatchingRefs c org name ''tags/'' = Inr refs"
  shows "snd (fetchLatestTag c org name) =
           Inr (latestOf (parseTags
                  (filter (\<lambda>r. NewVersion (TrimPrefix r ''refs/tags/'') \<noteq> None) refs))) \<and>
         ((\<forall>r \<in> set refs. NewVersion (TrimPrefix r ''refs/tags/'') = None) \<longrightarrow>
            snd (fetchLatestTag c org name) = Inr None) \<and>
         bumpVersion None bump =
           bumpVersion (Some \<lparr>major = 0, minor = 0, patch = 0, pre = [], metadata = [],
                              original = ''v0.0.0''\<rparr>) bump \<and>
         (\<forall>s. (NewVersion s \<noteq> None) =
            (\<exists>d1 d2 d3 p m.
               TrimPrefix s ''v'' = d1 @ dotted d2 @ dotted d3 @ suffixes p m \<and>
               decimal64 d1 \<and> (d2 = [] \<or> decimal64 d2) \<and> (d3 = [] \<or> decimal64 d3) \<and>
               (d3 = [] \<or> d2 \<noteq> []) \<and> (p = [] \<or> prereleaseOK p) \<and> (m = [] \<or> buildOK m)))"
proof (intro conjI impI allI)
  have res: "snd (fetchLatestTag c org name) = Inr (latestOf (parseTags refs))"
    using assms by (simp add: fetchLatestTag_def)
  show "snd (fetchLatestTag c org name) =
           Inr (latestOf (parseTags
                  (filter (\<lambda>r. NewVersion (TrimPrefix r ''refs/tags/'') \<noteq> None) refs)))"
    using res by (simp only: parseTags_filter)
  show "snd (fetchLatestTag c org name) = Inr None"
    if "\<forall>r \<in> set refs. NewVersion (TrimPrefix r ''refs/tags/'') = None"
  proof -
    from that have "set (parseTags refs) = {}" by (simp add: parseTags_set)
    then have "parseTags refs = []" by simp
    with res show ?thesis by (simp add: latestOf_def)
  qed
  show "bumpVersion None bump =
           bumpVersion (Some \<lparr>major = 0, minor = 0, patch = 0, pre = [], metadata = [],
                              original = ''v0.0.0''\<rparr>) bump"
    by (simp add: bumpVersion_def MustParse_zero)
  show "(NewVersion s \<noteq> None) =
            (\<exists>d1 d2 d3 p m.
               TrimPrefix s ''v'' = d1 @ dotted d2 @ dotted d3 @ suffixes p m \<and>
               decimal64 d1 \<and> (d2 = [] \<or> decimal64 d2) \<and> (d3 = [] \<or> decimal64 d3) \<and>
               (d3 = [] \<or> d2 \<noteq> []) \<and> (p = [] \<or> prereleaseOK p) \<and> (m = [] \<or> buildOK m))" for s
    by (rule NewVersion_accepts_iff)
qed

text \<open>
  C4 on a repository with one release tag between two names that are no versions: the
  release is selected and nothing fails; and on a repository with the two other names
  only: no version is selected.
\<close>

theorem unparsable_tags_discarded_witness:
  "snd (fetchLatestTag
          (example_client\<lparr>Git_ListMatchingRefs :=
             (\<lambda>org name ref. Inr [''refs/tags/nightly'', ''refs/tags/v2.0.1'', ''refs/tags/x.y''])\<rparr>)
          ''org'' ''A'') =
     Inr (Some \<lparr>major = 2, minor = 0, patch = 1, pre = [], metadata = [],
                 original = ''v2.0.1''\<rparr>) \<and>
   NewVersion ''nightly'' = None \<and> NewVersion ''x.y'' = None \<and>
   snd (fetchLatestTag
          (example_client\<lparr>Git_ListMatchingRefs :=
             (\<lambda>org name ref. Inr [''refs/tags/nightly'', ''refs/tags/x.y''])\<rparr>)
          ''org'' ''A'') = Inr None"
proof -
  have l: "Git_ListMatchingRefs
      (example_client\<lparr>Git_ListMatchingRefs :=
             (\<lambda>org name ref. Inr [''refs/tags/nightly'', ''refs/tags/v2.0.1'', ''refs/tags/x.y''])\<rparr>)
      ''org'' ''A'' ''tags/'' = Inr [''refs/tags/nightly'', ''refs/tags/v2.0.1'', ''refs/tags/x.y'']"
    by simp
  have l2: "Git_ListMatchingRefs
      (example_client\<lparr>Git_ListMatchingRefs :=
             (\<lambda>org name ref. Inr [''refs/tags/nightly'', ''refs/tags/x.y''])\<rparr>)
      ''org'' ''A'' ''tags/'' = Inr [''refs/tags/nightly'', ''refs/tags/x.y'']"
    by simp
  have n: "NewVersion ''nightly'' = None" "NewVersion ''x.y'' = None"
    "NewVersion ''v2.0.1'' = Some \<lparr>major = 2, minor = 0, patch = 1, pre = [], metadata = [],
                 original = ''v2.0.1''\<rparr>"
    by (simp_all add: semver_eval)
  from unparsable_tags_discarded [OF l, THEN conjunct1]
  have "snd (fetchLatestTag
          (example_client\<lparr>Git_ListMatchingRefs :=
             (\<lambda>org name ref. Inr [''refs/tags/nightly'', ''refs/tags/v2.0.1'', ''refs/tags/x.y''])\<rparr>)
          ''org'' ''A'') =
     Inr (latestOf (parseTags (filter (\<lambda>r. NewVersion (TrimPrefix r ''refs/tags/'') \<noteq> None)
        [''refs/tags/nightly'', ''refs/tags/v2.0.1'', ''refs/tags/x.y''])))" .
  also have "\<dots> = Inr (Some \<lparr>major = 2, minor = 0, patch = 1, pre = [], metadata = [],
                 original = ''v2.0.1''\<rparr>)"
    by (simp add: n TrimPrefix_def latestOf_def sort_Sort_def)
  finally have one: "snd (fetchLatestTag
          (example_client\<lparr>Git_ListMatchingRefs :=
             (\<lambda>org name ref. Inr [''refs/tags/nightly'', ''refs/tags/v2.0.1'', ''refs/tags/x.y''])\<rparr>)
          ''org'' ''A'') =
     Inr (Some \<lparr>major = 2, minor = 0, patch = 1, pre = [], metadata = [],
                 original = ''v2.0.1''\<rparr>)" .
  have rej: "\<forall>r \<in> set [''refs/tags/nightly'', ''refs/tags/x.y''].
      NewVersion (TrimPrefix r ''refs/tags/'') = None"
    by (simp add: n TrimPrefix_def)
  from unparsable_tags_discarded [OF l2, THEN conjunct2, THEN conjunct1, THEN mp, OF rej]
  have none: "snd (fetchLatestTag
          (example_client\<lparr>Git_ListMatchingRefs :=
             (\<lambda>org name ref. Inr [''refs/tags/nightly'', ''refs/tags/x.y''])\<rparr>)
          ''org'' ''A'') = Inr None" .
  from one n(1,2) none show ?thesis by (intro conjI)
qed

text \<open>
  C4 as the claim states it fails on a name outside the grammar
  \<open>vMAJOR.MINOR.PATCH[-PRERELEASE][+BUILD]\<close> that the parser accepts: \<open>v2\<close> has one
  number only, it parses as \<open>2.0.0\<close> and is not discarded; of the tags \<open>v1.0.0\<close>
  and \<open>v2\<close> it is the one selected.
\<close>

theorem lenient_parse_counterexample:
  "\<not> specGrammar ''v2'' \<and>
   NewVersion ''v2'' =
     Some \<lparr>major = 2, minor = 0, patch = 0, pre = [], metadata = [], original = ''v2''\<rparr> \<and>
   snd (fetchLatestTag
          (example_client\<lparr>Git_ListMatchingRefs :=
             (\<lambda>org name ref. Inr [''refs/tags/v1.0.0'', ''refs/tags/v2''])\<rparr>)
          ''org'' ''A'') =
     Inr (Some \<lparr>major = 2, minor = 0, patch = 0, pre = [], metadata = [], original = ''v2''\<rparr>)"
  by (simp add: grammar_eval program_eval semver_eval)


section \<open>The output of gh-tag-fetcher\<close>





section \<open>The startup checks of gh-tag-fetcher\<close>

text \<open>
  C7. When the value of \<open>-bump\<close> is none of \<open>patch\<close>, \<open>minor\<close> and \<open>major\<close>,
  gh-tag-fetcher ends in \<open>parseFlags\<close> through \<open>log.Fatalf\<close>, with exit status 1
  and without any API call (the run has no event at all). When the organization and the
  token are given, so that the bump kind is the only fault, the message names the value.
\<close>

theorem invalid_bump_rejected:
  assumes "bump \<noteq> ''patch''" and "bump \<noteq> ''minor''" and "bump \<noteq> ''major''"
  shows "fst (fetcher_main c bump args token) = [] \<and>
         (\<exists>msg. snd (fetcher_main c bump args token) = Inl (Fatal msg)) \<and>
         exitStatus (snd (fetcher_main c bump args token)) = 1 \<and>
         (length args = 1 \<and> token \<noteq> [] \<longrightarrow>
            snd (fetcher_main c bump args token) =
              Inl (Fatal (''Error: bump flag expects one of [patch minor major], got: '' @ bump)))"
  using assms by (simp add: fetcher_main_def parseFlags_def)

text \<open>C7 on the example organization with the bump kind \<open>huge\<close>.\<close>

theorem invalid_bump_rejected_witness:
  "fetcher_main example_client ''huge'' [''org''] ''secret'' =
     ([], Inl (Fatal ''Error: bump flag expects one of [patch minor major], got: huge''))"
  using invalid_bump_rejected [of "''huge''" example_client "[''org'']" "''secret''"]
  by (cases "fetcher_main example_client ''huge'' [''org''] ''secret''") simp


section \<open>The tags gh-tag-creator creates\<close>

lemma creator_fetchRepos_trace:
  "e \<in> set (fst (creator_fetchRepos c input)) \<Longrightarrow> \<not> isCreateRef e"
  by (induction input arbitrary: e)
     (auto simp: Let_def isCreateRef_def split: if_splits sum.splits prod.splits)

lemma creator_fetchRepos_rejects:
  "line \<in> set input \<Longrightarrow> \<not> acceptedLine line \<Longrightarrow>
     \<exists>msg. snd (creator_fetchRepos c input) = Inl (Fatal msg)"
proof (induction input)
  case Nil
  then show ?case by simp
next
  case (Cons l input)
  show ?case
  proof (cases "acceptedLine l")
    case False
    then show ?thesis by (auto simp: acceptedLine_def Let_def)
  next
    case True
    with Cons.prems have "line \<in> set input" by auto
    from Cons.IH [OF this Cons.prems(2)] obtain msg where
      m: "snd (creator_fetchRepos c input) = Inl (Fatal msg)" by blast
    obtain t where t: "creator_fetchRepos c input = (t, Inl (Fatal msg))"
      using m by (cases "creator_fetchRepos c input") auto
    show ?thesis
    proof (cases "Repositories_Get c
        (Split (TrimPrefix (Split l (CHR '' '') ! 0) ''github.com/'') (CHR ''/'') ! 0)
        (Split (TrimPrefix (Split l (CHR '' '') ! 0) ''github.com/'') (CHR ''/'') ! 1)")
      case (Inl err)
      with True show ?thesis by (simp add: acceptedLine_def Let_def)
    next
      case (Inr r)
      with True t show ?thesis by (simp add: acceptedLine_def Let_def)
    qed
  qed
qed

lemma creator_fetchRepos_accepts:
  assumes "\<forall>l \<in> set input. acceptedLine l"
    and "\<forall>l \<in> set input. \<exists>r. Repositories_Get c (lineOrg l) (lineName l) = Inr r"
  shows "\<exists>repos. snd (creator_fetchRepos c input) = Inr repos \<and>
           map tag repos = map lineTag input \<and>
           map (\<lambda>r. Inr (repository r)) repos =
             map (\<lambda>l. Repositories_Get c (lineOrg l) (lineName l)) input"
  using assms
proof (induction input)
  case Nil
  then show ?case by simp
next
  case (Cons l input)
  from Cons.prems obtain r where r: "Repositories_Get c (lineOrg l) (lineName l) = Inr r"
    by auto
  from Cons.prems have acc: "acceptedLine l" by simp
  from Cons.IH Cons.prems obtain repos where
    s: "snd (creator_fetchRepos c input) = Inr repos"
    and tg: "map tag repos = map lineTag input"
    and rp: "map (\<lambda>r. Inr (repository r)) repos =
             map (\<lambda>l. Repositories_Get c (lineOrg l) (lineName l)) input"
    by auto
  obtain t where t: "creator_fetchRepos c input = (t, Inr repos)"
    using s by (cases "creator_fetchRepos c input") auto
  have "snd (creator_fetchRepos c (l # input)) =
          Inr (\<lparr>repository = r, tag = lineTag l\<rparr> # repos)"
    using acc r t
    by (simp add: acceptedLine_def lineOrg_def lineName_def lineTag_def Let_def)
  with tg rp r show ?case by simp
qed

text \<open>
  C8, as the code has it. When some line of the input does not pass the two checks of
  \<open>fetchRepos\<close> (\<open>strings.Split\<close> at the space does not give exactly two pieces,
  or \<open>strings.Split\<close> at \<open>/\<close> of the first piece, after a leading
  \<open>github.com/\<close> is removed if present, does not give exactly two pieces),
  gh-tag-creator ends through \<open>log.Fatalf\<close> with exit status 1 and has issued no call
  that creates a reference, for any line. When every line passes the two checks and
  every repository lookup succeeds, \<open>fetchRepos\<close> rejects nothing: it returns one entry
  per line, in order, with the repository that the lookup of the line's two pieces
  answered and with the line's second piece as the tag. Pieces may be empty, and the host
  is not required.
\<close>

theorem malformed_line_aborts:
  "(line \<in> set input \<and> \<not> acceptedLine line \<longrightarrow>
      (\<exists>msg. snd (creator_main c yes token input tty) = Inl (Fatal msg)) \<and>
      exitStatus (snd (creator_main c yes token input tty)) = 1 \<and>
      filter isCreateRef (fst (creator_main c yes token input tty)) = []) \<and>
   ((\<forall>l \<in> set input. acceptedLine l) \<and>
    (\<forall>l \<in> set input. \<exists>r. Repositories_Get c (lineOrg l) (lineName l) = Inr r) \<longrightarrow>
      (\<exists>repos. snd (creator_fetchRepos c input) = Inr repos \<and>
         map tag repos = map lineTag input \<and>
         map (\<lambda>r. Inr (repository r)) repos =
           map (\<lambda>l. Repositories_Get c (lineOrg l) (lineName l)) input))"
proof (intro conjI impI)
  assume a: "line \<in> set input \<and> \<not> acceptedLine line"
  then have ne: "input \<noteq> []" by auto
  from a creator_fetchRepos_rejects [of line input c] obtain msg where
    m: "snd (creator_fetchRepos c input) = Inl (Fatal msg)" by blast
  obtain t where t: "creator_fetchRepos c input = (t, Inl (Fatal msg))"
    using m by (cases "creator_fetchRepos c input") auto
  have nt: "filter isCreateRef t = []"
    using creator_fetchRepos_trace [of _ c input] t by (auto simp: filter_empty_conv)
  show "\<exists>msg. snd (creator_main c yes token input tty) = Inl (Fatal msg)"
    using ne t by (cases "token = []") (simp_all add: creator_main_def creator_parseFlags_def)
  show "exitStatus (snd (creator_main c yes token input tty)) = 1"
    using ne t by (cases "token = []") (simp_all add: creator_main_def creator_parseFlags_def)
  show "filter isCreateRef (fst (creator_main c yes token input tty)) = []"
    using ne t nt by (cases "token = []") (simp_all add: creator_main_def creator_parseFlags_def)
next
  assume "(\<forall>l \<in> set input. acceptedLine l) \<and>
    (\<forall>l \<in> set input. \<exists>r. Repositories_Get c (lineOrg l) (lineName l) = Inr r)"
  then show "\<exists>repos. snd (creator_fetchRepos c input) = Inr repos \<and>
         map tag repos = map lineTag input \<and>
         map (\<lambda>r. Inr (repository r)) repos =
           map (\<lambda>l. Repositories_Get c (lineOrg l) (lineName l)) input"
    using creator_fetchRepos_accepts [of input c] by blast
qed

text \<open>
  C8 on an input whose second line has one piece only; on an input of two lines that
  pass, the second without a host; and, with an API that answers every lookup, on the
  lines \<open>github.com// v1.2.0\<close> and \<open>/ \<close>, which pass with empty pieces.
\<close>

theorem malformed_line_aborts_witness:
  "creator_main example_client True ''secret''
     [''github.com/org/A v1.2.0'', ''github.com/org/B''] (Inl ''no tty'') =
     ([Get_call ''org'' ''A''],
      Inl (Fatal ''Error: error parsing input line: expected 2 tokens separated with a space: github.com/org/B'')) \<and>
   snd (creator_fetchRepos example_client [''github.com/org/A v1.2.0'', ''org/B v0.1.0'']) =
     Inr [\<lparr>repository = repoA, tag = ''v1.2.0''\<rparr>, \<lparr>repository = repoB, tag = ''v0.1.0''\<rparr>] \<and>
   snd (creator_fetchRepos (example_client\<lparr>Repositories_Get := (\<lambda>org name. Inr repoA)\<rparr>)
          [''github.com// v1.2.0'', ''/ '']) =
     Inr [\<lparr>repository = repoA, tag = ''v1.2.0''\<rparr>, \<lparr>repository = repoA, tag = []\<rparr>]"
proof -
  have run: "creator_main example_client True ''secret''
     [''github.com/org/A v1.2.0'', ''github.com/org/B''] (Inl ''no tty'') =
     ([Get_call ''org'' ''A''],
      Inl (Fatal ''Error: error parsing input line: expected 2 tokens separated with a space: github.com/org/B''))"
    using malformed_line_aborts [THEN conjunct1, of "''github.com/org/B''"
      "[''github.com/org/A v1.2.0'', ''github.com/org/B'']" example_client True "''secret''"
      "Inl ''no tty''"]
    by (simp add: acceptedLine_def program_eval semver_eval)
  have acc: "snd (creator_fetchRepos example_client [''github.com/org/A v1.2.0'', ''org/B v0.1.0'']) =
     Inr [\<lparr>repository = repoA, tag = ''v1.2.0''\<rparr>, \<lparr>repository = repoB, tag = ''v0.1.0''\<rparr>]"
    using malformed_line_aborts [THEN conjunct2, of
      "[''github.com/org/A v1.2.0'', ''org/B v0.1.0'']" example_client]
    by (simp add: acceptedLine_def lineOrg_def lineName_def lineTag_def program_eval semver_eval)
  have emp: "snd (creator_fetchRepos (example_client\<lparr>Repositories_Get := (\<lambda>org name. Inr repoA)\<rparr>)
          [''github.com// v1.2.0'', ''/ '']) =
     Inr [\<lparr>repository = repoA, tag = ''v1.2.0''\<rparr>, \<lparr>repository = repoA, tag = []\<rparr>]"
    using malformed_line_aborts [THEN conjunct2, of
      "[''github.com// v1.2.0'', ''/ '']" "example_client\<lparr>Repositories_Get := (\<lambda>org name. Inr repoA)\<rparr>"]
    by (simp add: acceptedLine_def lineOrg_def lineName_def lineTag_def program_eval semver_eval)
  from run acc emp show ?thesis by (intro conjI)
qed

text \<open>
  C8 as the claim states it fails on lines that are not two tokens of which the first is
  \<open>host/org/repo\<close> and that pass the two checks. The line \<open>org/A v1.2.0\<close> has no
  host: the run creates its tag. The line \<open>github.com/org/B \<close> ends with a space and
  has no tag: the run creates the tag of the line before it and then asks for the
  reference \<open>refs/tags/\<close>.
\<close>

theorem hostless_line_counterexample:
  "\<not> hostOrgRepoLine ''org/A v1.2.0'' \<and> acceptedLine ''org/A v1.2.0'' \<and>
   creator_main example_client True ''secret'' [''org/A v1.2.0''] (Inl ''no tty'') =
     ([Get_call ''org'' ''A'', GetCommit_call ''org'' ''A'' ''main'',
       CreateRef_call ''org'' ''A'' ''refs/tags/v1.2.0'' ''c0ffee''], Inr ()) \<and>
   \<not> hostOrgRepoLine ''github.com/org/B '' \<and> acceptedLine ''github.com/org/B '' \<and>
   creator_main example_client True ''secret''
       [''github.com/org/A v1.2.0'', ''github.com/org/B ''] (Inl ''no tty'') =
     ([Get_call ''org'' ''A'', Get_call ''org'' ''B'',
       GetCommit_call ''org'' ''A'' ''main'',
       CreateRef_call ''org'' ''A'' ''refs/tags/v1.2.0'' ''c0ffee'',
       GetCommit_call ''org'' ''B'' ''main'',
       CreateRef_call ''org'' ''B'' ''refs/tags/'' ''c0ffee''], Inr ())"
  by (simp add: hostOrgRepoLine_def acceptedLine_def program_eval semver_eval)

text \<open>
  What \<open>createTags\<close> of gh-tag-creator does in a run that ends normally: for each
  repository in order, one call that creates the reference \<open>refs/tags/<tag>\<close> at the
  SHA that the lookup of the commit on the default branch answered.
\<close>

lemma creator_createTags_refs:
  "creator_createTags c repos = (t, Inr ()) \<Longrightarrow>
     \<exists>shas. length shas = length repos \<and>
       (\<forall>i < length repos.
          Repositories_GetCommit c (OwnerLogin (repository (repos ! i)))
            (Name (repository (repos ! i))) (DefaultBranch (repository (repos ! i))) = Inr (shas ! i)) \<and>
       filter isCreateRef t =
         map (\<lambda>(r, sha). CreateRef_call (OwnerLogin (repository r)) (Name (repository r))
                (''refs/tags/'' @ tag r) sha) (zip repos shas)"
proof (induction repos arbitrary: t)
  case Nil
  then show ?case by simp
next
  case (Cons r repos)
  let ?org = "OwnerLogin (repository r)" and ?name = "Name (repository r)"
  let ?branch = "DefaultBranch (repository r)"
  from Cons.prems obtain sha where sha: "Repositories_GetCommit c ?org ?name ?branch = Inr sha"
    by (cases "Repositories_GetCommit c ?org ?name ?branch") (auto simp: Let_def)
  from Cons.prems sha obtain created where
    cr: "Git_CreateRef c ?org ?name (''refs/tags/'' @ tag r) sha = Inr created"
    by (cases "Git_CreateRef c ?org ?name (''refs/tags/'' @ tag r) sha") (auto simp: Let_def)
  from Cons.prems sha cr obtain t' where
    t': "creator_createTags c repos = (t', Inr ())"
    and t: "t = GetCommit_call ?org ?name ?branch #
               CreateRef_call ?org ?name (''refs/tags/'' @ tag r) sha # t'"
    by (cases "creator_createTags c repos") (auto simp: Let_def)
  from Cons.IH [OF t'] obtain shas where
    l: "length shas = length repos"
    and g: "\<forall>i < length repos.
          Repositories_GetCommit c (OwnerLogin (repository (repos ! i)))
            (Name (repository (repos ! i))) (DefaultBranch (repository (repos ! i))) = Inr (shas ! i)"
    and f: "filter isCreateRef t' =
         map (\<lambda>(r, sha). CreateRef_call (OwnerLogin (repository r)) (Name (repository r))
                (''refs/tags/'' @ tag r) sha) (zip repos shas)"
    by blast
  show ?case
  proof (intro exI [of _ "sha # shas"] conjI)
    show "length (sha # shas) = length (r # repos)" using l by simp
    show "\<forall>i < length (r # repos).
          Repositories_GetCommit c (OwnerLogin (repository ((r # repos) ! i)))
            (Name (repository ((r # repos) ! i))) (DefaultBranch (repository ((r # repos) ! i))) =
          Inr ((sha # shas) ! i)"
      using g sha by (auto simp: nth_Cons split: nat.splits)
    show "filter isCreateRef t =
         map (\<lambda>(r, sha). CreateRef_call (OwnerLogin (repository r)) (Name (repository r))
                (''refs/tags/'' @ tag r) sha) (zip (r # repos) (sha # shas))"
      using f t by (simp add: isCreateRef_def)
  qed
qed


section \<open>The tags the interactive tagger creates\<close>

text \<open>
  C6 at the interactive \<open>createTags\<close>. For one selected repository with the new
  version \<open>0.1.0\<close> and every prompt confirmed, the reference it asks the API to create
  is named \<open>ref/tags/v0.1.0\<close>, which is not \<open>refs/tags/v0.1.0\<close>; the SHA is the one
  of the commit on the default branch.
\<close>

theorem interactive_createTags_ref_name:
  "interactive_createTags example_client (\<lambda>q. Inr True)
     [\<lparr>repo = repoA, latestTag = None,
       newTag = Some \<lparr>major = 0, minor = 1, patch = 0, pre = [], metadata = [],
                      original = ''v0.1.0''\<rparr>\<rparr>] =
     ([Stdout [CHR 0x0A], GetCommit_call ''conduitio'' ''A'' ''main'',
       Prompt ''Confirm you want to create tag v0.1.0 on branch main (SHA: c0ffee)'',
       CreateRef_call ''conduitio'' ''A'' ''ref/tags/v0.1.0'' ''c0ffee'',
       Info ''Created ref: ref/tags/v0.1.0 (SHA: c0ffee)''], Inr ()) \<and>
   ''ref/tags/v0.1.0'' \<noteq> ''refs/tags/'' @ ''v0.1.0''"
  by (simp add: program_eval semver_eval)

lemma interactive_createTags_answers:
  assumes "\<forall>q. \<exists>b. ask q = Inr b"
  shows "filter isCreateRef (fst (interactive_createTags c ask repos)) =
         filter isCreateRef (fst (interactive_createTags c (\<lambda>q. Inr True) repos)) \<and>
         snd (interactive_createTags c ask repos) =
         snd (interactive_createTags c (\<lambda>q. Inr True) repos)"
proof (induction repos)
  case Nil
  show ?case by simp
next
  case (Cons r repos)
  show ?case
  proof (cases "Repositories_GetCommit c interactive_org (Name (repo r)) (DefaultBranch (repo r))")
    case (Inl err)
    then show ?thesis by (simp add: Let_def isCreateRef_def)
  next
    case (Inr sha)
    note sha = this
    show ?thesis
    proof (cases "newTag r")
      case None
      with sha show ?thesis by (simp add: Let_def isCreateRef_def)
    next
      case (Some new)
      let ?q = "''Confirm you want to create tag v'' @ String new @
                '' on branch '' @ DefaultBranch (repo r) @ '' (SHA: '' @ sha @ '')''"
      from assms obtain b where b: "ask ?q = Inr b" by blast
      show ?thesis
      proof (cases "Git_CreateRef c interactive_org (Name (repo r)) (''ref/tags/v'' @ String new) sha")
        case (Inl err)
        with sha Some b show ?thesis by (simp add: Let_def isCreateRef_def)
      next
        case (Inr created)
        with sha Some b Cons.IH show ?thesis
          by (simp add: Let_def isCreateRef_def split_beta)
      qed
    qed
  qed
qed

lemma interactive_createTags_steps:
  "interactive_createTags c ask repos = (t, Inr ()) \<Longrightarrow>
     \<exists>steps.
       list_all2 (\<lambda>r (new, sha, answer).
           newTag r = Some new \<and>
           Repositories_GetCommit c interactive_org (Name (repo r)) (DefaultBranch (repo r)) = Inr sha \<and>
           ask (confirmQuestion new (DefaultBranch (repo r)) sha) = Inr answer)
         repos steps \<and>
       filter isCreateOrSkip t =
         concat (map (\<lambda>(r, new, sha, answer).
                   (if answer then [] else [Warning ''Skip'']) @
                   [CreateRef_call interactive_org (Name (repo r)) (''ref/tags/v'' @ String new) sha])
                 (zip repos steps))"
proof (induction repos arbitrary: t)
  case Nil
  then show ?case by simp
next
  case (Cons r repos)
  let ?name = "Name (repo r)" and ?branch = "DefaultBranch (repo r)"
  from Cons.prems obtain sha where
    sha: "Repositories_GetCommit c interactive_org ?name ?branch = Inr sha"
    by (cases "Repositories_GetCommit c interactive_org ?name ?branch") (auto simp: Let_def)
  from Cons.prems sha obtain new where new: "newTag r = Some new"
    by (cases "newTag r") (auto simp: Let_def)
  let ?q = "confirmQuestion new ?branch sha"
  have q: "''Confirm you want to create tag v'' @ String new @ '' on branch '' @ ?branch @
     '' (SHA: '' @ sha @ '')'' = ?q" by (simp add: confirmQuestion_def)
  from Cons.prems sha new obtain answer where answer: "ask ?q = Inr answer"
    by (cases "ask ?q") (auto simp: Let_def q simp del: append.simps)
  let ?ref = "''ref/tags/v'' @ String new"
  from Cons.prems sha new answer obtain created where
    cr: "Git_CreateRef c interactive_org ?name ?ref sha = Inr created"
    by (cases "Git_CreateRef c interactive_org ?name ?ref sha")
       (auto simp: Let_def q simp del: append.simps)
  from Cons.prems sha new answer cr obtain t' where
    t': "interactive_createTags c ask repos = (t', Inr ())"
    and t: "t = [Stdout [CHR 0x0A], GetCommit_call interactive_org ?name ?branch, Prompt ?q] @
               (if \<not> answer then [Warning ''Skip''] else []) @
               [CreateRef_call interactive_org ?name ?ref sha] @
               [Info (''Created ref: '' @ fst created @ '' (SHA: '' @ snd created @ '')'')] @ t'"
    by (cases "interactive_createTags c ask repos")
       (auto simp: Let_def q simp del: append.simps)
  from Cons.IH [OF t'] obtain steps where
    st: "list_all2 (\<lambda>r (new, sha, answer).
           newTag r = Some new \<and>
           Repositories_GetCommit c interactive_org (Name (repo r)) (DefaultBranch (repo r)) = Inr sha \<and>
           ask (confirmQuestion new (DefaultBranch (repo r)) sha) = Inr answer)
         repos steps"
    and f: "filter isCreateOrSkip t' =
         concat (map (\<lambda>(r, new, sha, answer).
                   (if answer then [] else [Warning ''Skip'']) @
                   [CreateRef_call interactive_org (Name (repo r)) (''ref/tags/v'' @ String new) sha])
                 (zip repos steps))"
    by blast
  have ft: "filter isCreateOrSkip t =
      (if answer then [] else [Warning ''Skip'']) @
      [CreateRef_call interactive_org ?name ?ref sha] @ filter isCreateOrSkip t'"
    by (simp add: t isCreateOrSkip_def isCreateRef_def)
  show ?case
  proof (intro exI [of _ "(new, sha, answer) # steps"] conjI)
    show "list_all2 (\<lambda>r (new, sha, answer).
           newTag r = Some new \<and>
           Repositories_GetCommit c interactive_org (Name (repo r)) (DefaultBranch (repo r)) = Inr sha \<and>
           ask (confirmQuestion new (DefaultBranch (repo r)) sha) = Inr answer)
         (r # repos) ((new, sha, answer) # steps)"
      using st sha new answer by simp
    show "filter isCreateOrSkip t =
         concat (map (\<lambda>(r, new, sha, answer).
                   (if answer then [] else [Warning ''Skip'']) @
                   [CreateRef_call interactive_org (Name (repo r)) (''ref/tags/v'' @ String new) sha])
                 (zip (r # repos) ((new, sha, answer) # steps)))"
      by (simp only: ft f) simp
  qed
qed

lemma interactive_createTags_step:
  assumes "Repositories_GetCommit c interactive_org (Name (repo r)) (DefaultBranch (repo r)) = Inr sha"
    and "newTag r = Some new"
    and "ask (confirmQuestion new (DefaultBranch (repo r)) sha) = Inr b"
    and "Git_CreateRef c interactive_org (Name (repo r)) (''ref/tags/v'' @ String new) sha = Inr created"
  shows "interactive_createTags c ask (r # rest) =
           ([Stdout [CHR 0x0A],
             GetCommit_call interactive_org (Name (repo r)) (DefaultBranch (repo r)),
             Prompt (confirmQuestion new (DefaultBranch (repo r)) sha)] @
            (if b then [] else [Warning ''Skip'']) @
            [CreateRef_call interactive_org (Name (repo r)) (''ref/tags/v'' @ String new) sha,
             Info (''Created ref: '' @ fst created @ '' (SHA: '' @ snd created @ '')'')] @
            fst (interactive_createTags c ask rest),
            snd (interactive_createTags c ask rest))"
  using assms by (simp add: Let_def confirmQuestion_def split_beta)

lemma interactive_createTags_append:
  "interactive_createTags c ask xs = (t, Inr ()) \<Longrightarrow>
     interactive_createTags c ask (xs @ ys) =
       (t @ fst (interactive_createTags c ask ys), snd (interactive_createTags c ask ys))"
proof (induction xs arbitrary: t)
  case Nil
  then show ?case by simp
next
  case (Cons r xs)
  let ?name = "Name (repo r)" and ?branch = "DefaultBranch (repo r)"
  from Cons.prems obtain sha where
    sha: "Repositories_GetCommit c interactive_org ?name ?branch = Inr sha"
    by (cases "Repositories_GetCommit c interactive_org ?name ?branch") (auto simp: Let_def)
  from Cons.prems sha obtain new where new: "newTag r = Some new"
    by (cases "newTag r") (auto simp: Let_def)
  let ?q = "confirmQuestion new ?branch sha"
  have q: "''Confirm you want to create tag v'' @ String new @ '' on branch '' @ ?branch @
     '' (SHA: '' @ sha @ '')'' = ?q" by (simp add: confirmQuestion_def)
  from Cons.prems sha new obtain answer where answer: "ask ?q = Inr answer"
    by (cases "ask ?q") (auto simp: Let_def q simp del: append.simps)
  let ?ref = "''ref/tags/v'' @ String new"
  from Cons.prems sha new answer obtain created where
    cr: "Git_CreateRef c interactive_org ?name ?ref sha = Inr created"
    by (cases "Git_CreateRef c interactive_org ?name ?ref sha")
       (auto simp: Let_def q simp del: append.simps)
  have step: "interactive_createTags c ask (r # rest) =
           ([Stdout [CHR 0x0A],
             GetCommit_call interactive_org (Name (repo r)) (DefaultBranch (repo r)),
             Prompt (confirmQuestion new (DefaultBranch (repo r)) sha)] @
            (if answer then [] else [Warning ''Skip'']) @
            [CreateRef_call interactive_org (Name (repo r)) (''ref/tags/v'' @ String new) sha,
             Info (''Created ref: '' @ fst created @ '' (SHA: '' @ snd created @ '')'')] @
            fst (interactive_createTags c ask rest),
            snd (interactive_createTags c ask rest))" for rest
    using sha new answer cr by (rule interactive_createTags_step)
  from Cons.prems obtain t' where
    t': "interactive_createTags c ask xs = (t', Inr ())"
    by (cases "interactive_createTags c ask xs") (auto simp: step [of xs] simp del: interactive_createTags.simps)
  from Cons.IH [OF t'] have
    ih: "interactive_createTags c ask (xs @ ys) =
       (t' @ fst (interactive_createTags c ask ys), snd (interactive_createTags c ask ys))" .
  have "interactive_createTags c ask (r # xs @ ys) =
          (fst (interactive_createTags c ask (r # xs)) @ fst (interactive_createTags c ask ys),
           snd (interactive_createTags c ask ys))"
    by (simp add: step [of xs] step [of "xs @ ys"] ih t' del: interactive_createTags.simps)
  with Cons.prems show ?case by (simp del: interactive_createTags.simps)
qed

lemma interactive_createTags_head:
  assumes "Repositories_GetCommit c interactive_org (Name (repo r)) (DefaultBranch (repo r)) = Inr sha"
    and "newTag r = Some new"
    and "ask (confirmQuestion new (DefaultBranch (repo r)) sha) = Inr b"
  shows "take (if b then 4 else 5) (fst (interactive_createTags c ask (r # rest))) =
           [Stdout [CHR 0x0A],
            GetCommit_call interactive_org (Name (repo r)) (DefaultBranch (repo r)),
            Prompt (confirmQuestion new (DefaultBranch (repo r)) sha)] @
           (if b then [] else [Warning ''Skip'']) @
           [CreateRef_call interactive_org (Name (repo r)) (''ref/tags/v'' @ String new) sha]"
proof (cases "Git_CreateRef c interactive_org (Name (repo r)) (''ref/tags/v'' @ String new) sha")
  case (Inl err)
  with assms show ?thesis by (simp add: Let_def confirmQuestion_def)
next
  case (Inr created)
  with assms show ?thesis by (simp add: Let_def confirmQuestion_def split_beta)
qed

lemma interactive_createTags_reached:
  assumes i: "i < length repos"
    and t0: "interactive_createTags c ask (take i repos) = (t0, Inr ())"
    and sha: "Repositories_GetCommit c interactive_org (Name (repo (repos ! i)))
               (DefaultBranch (repo (repos ! i))) = Inr sha"
    and new: "newTag (repos ! i) = Some new"
    and b: "ask (confirmQuestion new (DefaultBranch (repo (repos ! i))) sha) = Inr b"
  shows "take (length t0 + (if b then 4 else 5)) (fst (interactive_createTags c ask repos)) =
           t0 @
           [Stdout [CHR 0x0A],
            GetCommit_call interactive_org (Name (repo (repos ! i))) (DefaultBranch (repo (repos ! i))),
            Prompt (confirmQuestion new (DefaultBranch (repo (repos ! i))) sha)] @
           (if b then [] else [Warning ''Skip'']) @
           [CreateRef_call interactive_org (Name (repo (repos ! i))) (''ref/tags/v'' @ String new) sha]"
proof -
  from i have split: "take i repos @ (repos ! i # drop (Suc i) repos) = repos"
    by (simp add: Cons_nth_drop_Suc)
  from interactive_createTags_append [OF t0, of "repos ! i # drop (Suc i) repos"]
  have "fst (interactive_createTags c ask repos) =
          t0 @ fst (interactive_createTags c ask (repos ! i # drop (Suc i) repos))"
    by (simp only: split) simp
  then show ?thesis
    using interactive_createTags_head [of c "repos ! i" sha new ask b "drop (Suc i) repos"] sha new b
    by (simp del: interactive_createTags.simps append.simps)
qed

text \<open>
  C10. In the interactive \<open>createTags\<close> the answer to a prompt changes nothing but
  the warning. When every prompt is answered (yes or no, without an input error), the
  calls that create references and the result of the run are those of the run in which
  every answer is yes. For every selected repository that the run reaches, that is when
  the iterations before it have ended normally, and whose commit lookup succeeds, whose
  new version is present and whose prompt is answered: the run goes on with the line
  feed, the commit lookup, the prompt, the warning \<open>Skip\<close> exactly when the answer is
  no, and then the call that creates the reference \<open>ref/tags/v<new version>\<close> at the
  SHA of the lookup. And in a run that ends normally, the calls that create references
  and the warnings are, for each selected repository in order, the warning \<open>Skip\<close> when
  its prompt was answered no and then the one call for that repository.
\<close>

theorem confirmation_answer_ignored:
  "((\<forall>q. \<exists>b. ask q = Inr b) \<longrightarrow>
      filter isCreateRef (fst (interactive_createTags c ask repos)) =
        filter isCreateRef (fst (interactive_createTags c (\<lambda>q. Inr True) repos)) \<and>
      snd (interactive_createTags c ask repos) =
        snd (interactive_createTags c (\<lambda>q. Inr True) repos)) \<and>
   (\<forall>i t0 sha new b.
      i < length repos \<and>
      interactive_createTags c ask (take i repos) = (t0, Inr ()) \<and>
      Repositories_GetCommit c interactive_org (Name (repo (repos ! i)))
        (DefaultBranch (repo (repos ! i))) = Inr sha \<and>
      newTag (repos ! i) = Some new \<and>
      ask (confirmQuestion new (DefaultBranch (repo (repos ! i))) sha) = Inr b \<longrightarrow>
      take (length t0 + (if b then 4 else 5)) (fst (interactive_createTags c ask repos)) =
        t0 @
        [Stdout [CHR 0x0A],
         GetCommit_call interactive_org (Name (repo (repos ! i))) (DefaultBranch (repo (repos ! i))),
         Prompt (confirmQuestion new (DefaultBranch (repo (repos ! i))) sha)] @
        (if b then [] else [Warning ''Skip'']) @
        [CreateRef_call interactive_org (Name (repo (repos ! i))) (''ref/tags/v'' @ String new) sha]) \<and>
   (\<forall>t. interactive_createTags c ask repos = (t, Inr ()) \<longrightarrow>
      (\<exists>steps.
         list_all2 (\<lambda>r (new, sha, answer).
             newTag r = Some new \<and>
             Repositories_GetCommit c interactive_org (Name (repo r)) (DefaultBranch (repo r)) = Inr sha \<and>
             ask (confirmQuestion new (DefaultBranch (repo r)) sha) = Inr answer)
           repos steps \<and>
         filter isCreateOrSkip t =
           concat (map (\<lambda>(r, new, sha, answer).
                     (if answer then [] else [Warning ''Skip'']) @
                     [CreateRef_call interactive_org (Name (repo r)) (''ref/tags/v'' @ String new) sha])
                   (zip repos steps))))"
proof (intro conjI allI impI)
  assume a: "\<forall>q. \<exists>b. ask q = Inr b"
  show "filter isCreateRef (fst (interactive_createTags c ask repos)) =
           filter isCreateRef (fst (interactive_createTags c (\<lambda>q. Inr True) repos))"
    using interactive_createTags_answers [OF a] by blast
  show "snd (interactive_createTags c ask repos) =
           snd (interactive_createTags c (\<lambda>q. Inr True) repos)"
    using interactive_createTags_answers [OF a] by blast
next
  fix i t0 sha new b
  assume "i < length repos \<and>
      interactive_createTags c ask (take i repos) = (t0, Inr ()) \<and>
      Repositories_GetCommit c interactive_org (Name (repo (repos ! i)))
        (DefaultBranch (repo (repos ! i))) = Inr sha \<and>
      newTag (repos ! i) = Some new \<and>
      ask (confirmQuestion new (DefaultBranch (repo (repos ! i))) sha) = Inr b"
  then show "take (length t0 + (if b then 4 else 5)) (fst (interactive_createTags c ask repos)) =
        t0 @
        [Stdout [CHR 0x0A],
         GetCommit_call interactive_org (Name (repo (repos ! i))) (DefaultBranch (repo (repos ! i))),
         Prompt (confirmQuestion new (DefaultBranch (repo (repos ! i))) sha)] @
        (if b then [] else [Warning ''Skip'']) @
        [CreateRef_call interactive_org (Name (repo (repos ! i))) (''ref/tags/v'' @ String new) sha]"
    using interactive_createTags_reached [of i repos c ask t0 sha new b] by blast
next
  fix t
  assume "interactive_createTags c ask repos = (t, Inr ())"
  then show "\<exists>steps.
         list_all2 (\<lambda>r (new, sha, answer).
             newTag r = Some new \<and>
             Repositories_GetCommit c interactive_org (Name (repo r)) (DefaultBranch (repo r)) = Inr sha \<and>
             ask (confirmQuestion new (DefaultBranch (repo r)) sha) = Inr answer)
           repos steps \<and>
         filter isCreateOrSkip t =
           concat (map (\<lambda>(r, new, sha, answer).
                     (if answer then [] else [Warning ''Skip'']) @
                     [CreateRef_call interactive_org (Name (repo r)) (''ref/tags/v'' @ String new) sha])
                   (zip repos steps))"
    by (rule interactive_createTags_steps)
qed

text \<open>
  C10 on the two repositories of the example, every prompt answered no: each repository
  gets the warning and then its call, the calls are those of the run answered yes, and
  the second repository is reached after the first.
\<close>

theorem confirmation_answer_ignored_witness:
  "interactive_createTags example_client (\<lambda>q. Inr False) example_selection =
     ([Stdout [CHR 0x0A], GetCommit_call ''conduitio'' ''B'' ''main'',
       Prompt ''Confirm you want to create tag v0.1.0 on branch main (SHA: c0ffee)'',
       Warning ''Skip'',
       CreateRef_call ''conduitio'' ''B'' ''ref/tags/v0.1.0'' ''c0ffee'',
       Info ''Created ref: ref/tags/v0.1.0 (SHA: c0ffee)'',
       Stdout [CHR 0x0A], GetCommit_call ''conduitio'' ''A'' ''main'',
       Prompt ''Confirm you want to create tag v1.2.0 on branch main (SHA: c0ffee)'',
       Warning ''Skip'',
       CreateRef_call ''conduitio'' ''A'' ''ref/tags/v1.2.0'' ''c0ffee'',
       Info ''Created ref: ref/tags/v1.2.0 (SHA: c0ffee)''], Inr ()) \<and>
   filter isCreateRef (fst (interactive_createTags example_client (\<lambda>q. Inr True) example_selection)) =
     [CreateRef_call ''conduitio'' ''B'' ''ref/tags/v0.1.0'' ''c0ffee'',
      CreateRef_call ''conduitio'' ''A'' ''ref/tags/v1.2.0'' ''c0ffee''] \<and>
   take 11 (fst (interactive_createTags example_client (\<lambda>q. Inr False) example_selection)) =
     [Stdout [CHR 0x0A], GetCommit_call ''conduitio'' ''B'' ''main'',
      Prompt ''Confirm you want to create tag v0.1.0 on branch main (SHA: c0ffee)'',
      Warning ''Skip'',
      CreateRef_call ''conduitio'' ''B'' ''ref/tags/v0.1.0'' ''c0ffee'',
      Info ''Created ref: ref/tags/v0.1.0 (SHA: c0ffee)'',
      Stdout [CHR 0x0A], GetCommit_call ''conduitio'' ''A'' ''main'',
      Prompt ''Confirm you want to create tag v1.2.0 on branch main (SHA: c0ffee)'',
      Warning ''Skip'',
      CreateRef_call ''conduitio'' ''A'' ''ref/tags/v1.2.0'' ''c0ffee''] \<and>
   filter isCreateOrSkip
       (fst (interactive_createTags example_client (\<lambda>q. Inr False) example_selection)) =
     [Warning ''Skip'', CreateRef_call ''conduitio'' ''B'' ''ref/tags/v0.1.0'' ''c0ffee'',
      Warning ''Skip'', CreateRef_call ''conduitio'' ''A'' ''ref/tags/v1.2.0'' ''c0ffee'']"
proof -
  let ?no = "(\<lambda>q. Inr False) :: string \<Rightarrow> string + bool"
  let ?head = "[Stdout [CHR 0x0A], GetCommit_call ''conduitio'' ''B'' ''main'',
       Prompt ''Confirm you want to create tag v0.1.0 on branch main (SHA: c0ffee)'',
       Warning ''Skip'',
       CreateRef_call ''conduitio'' ''B'' ''ref/tags/v0.1.0'' ''c0ffee'',
       Info ''Created ref: ref/tags/v0.1.0 (SHA: c0ffee)'']"
  let ?whole = "?head @ [Stdout [CHR 0x0A], GetCommit_call ''conduitio'' ''A'' ''main'',
       Prompt ''Confirm you want to create tag v1.2.0 on branch main (SHA: c0ffee)'',
       Warning ''Skip'',
       CreateRef_call ''conduitio'' ''A'' ''ref/tags/v1.2.0'' ''c0ffee'',
       Info ''Created ref: ref/tags/v1.2.0 (SHA: c0ffee)'']"
  let ?v = "\<lparr>major = 1, minor = 2, patch = 0, pre = [], metadata = [], original = ''v1.2.0''\<rparr>"
  have answered: "\<forall>q. \<exists>b. ?no q = Inr b" by blast
  have run: "interactive_createTags example_client ?no example_selection = (?whole, Inr ())"
    by (simp add: example_selection_def program_eval semver_eval)
  have first: "interactive_createTags example_client ?no (take 1 example_selection) = (?head, Inr ())"
    by (simp add: example_selection_def program_eval semver_eval)
  from confirmation_answer_ignored [THEN conjunct1, THEN mp, OF answered, THEN conjunct1,
      of example_client example_selection]
  have yes: "filter isCreateRef (fst (interactive_createTags example_client (\<lambda>q. Inr True) example_selection)) =
     [CreateRef_call ''conduitio'' ''B'' ''ref/tags/v0.1.0'' ''c0ffee'',
      CreateRef_call ''conduitio'' ''A'' ''ref/tags/v1.2.0'' ''c0ffee'']"
    by (simp only: run) (simp add: isCreateRef_def)
  have reached: "take 11 (fst (interactive_createTags example_client ?no example_selection)) =
     ?head @ [Stdout [CHR 0x0A], GetCommit_call ''conduitio'' ''A'' ''main'',
      Prompt ''Confirm you want to create tag v1.2.0 on branch main (SHA: c0ffee)'',
      Warning ''Skip'',
      CreateRef_call ''conduitio'' ''A'' ''ref/tags/v1.2.0'' ''c0ffee'']"
    using confirmation_answer_ignored [THEN conjunct2, THEN conjunct1, rule_format,
      of 1 example_selection example_client ?no ?head "''c0ffee''" ?v False] first
    by (simp add: example_selection_def confirmQuestion_def program_eval semver_eval)
  from confirmation_answer_ignored [THEN conjunct2, THEN conjunct2, rule_format, OF run]
  obtain steps where
    st: "list_all2 (\<lambda>r (new, sha, answer).
             newTag r = Some new \<and>
             Repositories_GetCommit example_client interactive_org (Name (repo r))
               (DefaultBranch (repo r)) = Inr sha \<and>
             ?no (confirmQuestion new (DefaultBranch (repo r)) sha) = Inr answer)
           example_selection steps"
    and f: "filter isCreateOrSkip ?whole =
           concat (map (\<lambda>(r, new, sha, answer).
                     (if answer then [] else [Warning ''Skip'']) @
                     [CreateRef_call interactive_org (Name (repo r)) (''ref/tags/v'' @ String new) sha])
                   (zip example_selection steps))"
    by blast
  from st have steps: "steps =
      [(\<lparr>major = 0, minor = 1, patch = 0, pre = [], metadata = [], original = ''v0.1.0''\<rparr>,
        ''c0ffee'', False), (?v, ''c0ffee'', False)]"
    by (auto simp: example_selection_def list_all2_Cons1 example_client_def)
  have skips: "filter isCreateOrSkip
       (fst (interactive_createTags example_client ?no example_selection)) =
     [Warning ''Skip'', CreateRef_call ''conduitio'' ''B'' ''ref/tags/v0.1.0'' ''c0ffee'',
      Warning ''Skip'', CreateRef_call ''conduitio'' ''A'' ''ref/tags/v1.2.0'' ''c0ffee'']"
    unfolding run fst_conv f steps
    by (simp add: example_selection_def program_eval semver_eval)
  from run yes reached skips show ?thesis by (intro conjI) simp_all
qed


section \<open>Parsing and formatting\<close>

lemma String_compose:
  assumes "numeral64 d1" and "numeral64 d2" and "numeral64 d3"
  shows "String \<lparr>major = of_nat (digitsVal 0 d1), minor = of_nat (digitsVal 0 d2),
                 patch = of_nat (digitsVal 0 d3), pre = p, metadata = m, original = s\<rparr> =
         d1 @ ''.'' @ d2 @ ''.'' @ d3 @ suffixes p m"
proof -
  have f: "formatUint (unat (of_nat (digitsVal 0 d) :: 64 word)) = d" if "numeral64 d" for d
    using that by (simp add: numeral64_def unat_of_nat formatUint_digitsVal)
  show ?thesis
    using f [OF assms(1)] f [OF assms(2)] f [OF assms(3)]
    by (simp add: String_def suffixes_def)
qed

text \<open>
  C9, as the code has it. Let \<open>s\<close> be \<open>MAJOR.MINOR.PATCH\<close> followed by an optional
  \<open>-PRERELEASE\<close> and an optional \<open>+BUILD\<close>, where each of the three numbers is a
  decimal numeral without a leading zero and with a value below \<open>2\<^sup>6\<^sup>4\<close>, the
  pre-release is dot-separated non-empty identifiers of letters, digits and hyphens none
  of which is a run of two or more digits that starts with \<open>0\<close>, and the build metadata
  is dot-separated non-empty identifiers of letters, digits and hyphens. Then
  \<open>NewVersion\<close> accepts \<open>s\<close> and accepts \<open>s\<close> with a \<open>v\<close> in front, and for
  both \<open>String\<close> of the parsed version is \<open>s\<close> and \<open>versionToString\<close> is \<open>s\<close>
  with a \<open>v\<close> in front.
\<close>

theorem parse_format_roundtrip:
  assumes "numeral64 d1" and "numeral64 d2" and "numeral64 d3"
    and "p = [] \<or> prereleaseOK p" and "m = [] \<or> buildOK m"
    and "s = d1 @ ''.'' @ d2 @ ''.'' @ d3 @ suffixes p m"
  shows "(\<exists>v. NewVersion s = Some v \<and> String v = s \<and> versionToString (Some v) = ''v'' @ s) \<and>
         (\<exists>v. NewVersion (''v'' @ s) = Some v \<and> String v = s \<and>
              versionToString (Some v) = ''v'' @ s)"
proof -
  have ne: "d1 \<noteq> []" "d2 \<noteq> []" "d3 \<noteq> []"
    using assms(1-3) by (auto simp: numeral64_def canonical_def)
  have dg: "isDigit (hd d1)"
    using assms(1) ne(1) by (cases d1) (auto simp: numeral64_def canonical_def)
  then have hv: "hd d1 \<noteq> CHR ''v''" by (auto simp: isDigit_def)
  have body: "s = d1 @ dotted d2 @ dotted d3 @ suffixes p m"
    using assms(6) ne by (simp add: dotted_def)
  have t1: "TrimPrefix s ''v'' = s"
    using body ne(1) hv by (cases d1) (auto simp: TrimPrefix_def)
  have t2: "TrimPrefix (''v'' @ s) ''v'' = s" by (simp add: TrimPrefix_def)
  have c: "decimal64 d1" "d2 = [] \<or> decimal64 d2" "d3 = [] \<or> decimal64 d3" "d3 = [] \<or> d2 \<noteq> []"
    using assms(1-3) ne by (simp_all add: numeral64_decimal64)
  have b1: "TrimPrefix s ''v'' = d1 @ dotted d2 @ dotted d3 @ suffixes p m"
    using t1 body by simp
  have b2: "TrimPrefix (''v'' @ s) ''v'' = d1 @ dotted d2 @ dotted d3 @ suffixes p m"
    using t2 body by simp
  have str: "String \<lparr>major = of_nat (digitsVal 0 d1), minor = of_nat (digitsVal 0 d2),
                 patch = of_nat (digitsVal 0 d3), pre = p, metadata = m, original = x\<rparr> = s" for x
    using String_compose [OF assms(1-3)] assms(6) by simp
  show ?thesis
    using NewVersion_compose [OF b1 c assms(4,5)] NewVersion_compose [OF b2 c assms(4,5)] str
    by (simp add: versionToString_def)
qed

text \<open>C9 on a tag with a pre-release and build metadata.\<close>

theorem parse_format_roundtrip_witness:
  "NewVersion ''v1.2.3-rc.1+build.5'' =
     Some \<lparr>major = 1, minor = 2, patch = 3, pre = ''rc.1'', metadata = ''build.5'',
           original = ''v1.2.3-rc.1+build.5''\<rparr> \<and>
   String \<lparr>major = 1, minor = 2, patch = 3, pre = ''rc.1'', metadata = ''build.5'',
           original = ''v1.2.3-rc.1+build.5''\<rparr> = ''1.2.3-rc.1+build.5''"
proof -
  have n: "numeral64 ''1''" "numeral64 ''2''" "numeral64 ''3''"
    by (simp_all add: grammar_eval semver_eval)
  have p: "''rc.1'' = [] \<or> prereleaseOK ''rc.1''" by (simp add: grammar_eval semver_eval)
  have m: "''build.5'' = [] \<or> buildOK ''build.5''" by (simp add: grammar_eval semver_eval)
  have s: "''1.2.3-rc.1+build.5'' = ''1'' @ ''.'' @ ''2'' @ ''.'' @ ''3'' @ suffixes ''rc.1'' ''build.5''"
    by (simp add: suffixes_def)
  from parse_format_roundtrip [OF n p m s, THEN conjunct2]
  obtain v where v: "NewVersion (''v'' @ ''1.2.3-rc.1+build.5'') = Some v"
    "String v = ''1.2.3-rc.1+build.5''" by blast
  have e: "NewVersion ''v1.2.3-rc.1+build.5'' =
     Some \<lparr>major = 1, minor = 2, patch = 3, pre = ''rc.1'', metadata = ''build.5'',
           original = ''v1.2.3-rc.1+build.5''\<rparr>"
    by (simp add: semver_eval)
  with v show ?thesis by simp
qed

text \<open>
  C9 as the claim states it fails. The parser accepts \<open>1.2\<close> and formats it as
  \<open>1.2.0\<close>. Of the strings of the grammar
  \<open>vMAJOR.MINOR.PATCH[-PRERELEASE][+BUILD]\<close>, it accepts \<open>01.2.3\<close> and formats it
  as \<open>1.2.3\<close>; it rejects \<open>18446744073709551616.0.0\<close>, whose major number does not
  fit 64 bits, and \<open>1.2.3-01\<close>, whose pre-release is a number with a leading zero, so
  that there is nothing to format.
\<close>

theorem parse_format_counterexample:
  "NewVersion ''1.2'' =
     Some \<lparr>major = 1, minor = 2, patch = 0, pre = [], metadata = [], original = ''1.2''\<rparr> \<and>
   String \<lparr>major = 1, minor = 2, patch = 0, pre = [], metadata = [], original = ''1.2''\<rparr> =
     ''1.2.0'' \<and>
   ''1.2.0'' \<noteq> TrimPrefix ''1.2'' ''v'' \<and>
   specGrammar ''01.2.3'' \<and>
   NewVersion ''01.2.3'' =
     Some \<lparr>major = 1, minor = 2, patch = 3, pre = [], metadata = [], original = ''01.2.3''\<rparr> \<and>
   String \<lparr>major = 1, minor = 2, patch = 3, pre = [], metadata = [], original = ''01.2.3''\<rparr> =
     ''1.2.3'' \<and>
   ''1.2.3'' \<noteq> TrimPrefix ''01.2.3'' ''v'' \<and>
   specGrammar ''18446744073709551616.0.0'' \<and>
   NewVersion ''18446744073709551616.0.0'' = None \<and>
   specGrammar ''1.2.3-01'' \<and>
   NewVersion ''1.2.3-01'' = None"
  by (simp add: grammar_eval semver_eval)

end
